theory Spec2Isabelle
  imports
    Main
    "HOL-Library.Finite_Map"
    "HOL-Library.Char_ord"
    "HOL-Library.List_Lexorder"
    "HOL-Library.Multiset"
begin

section \<open>pubsubschema-gen: a shallow embedding of \<^verbatim>\<open>tools/pubsubschema-gen/main.go\<close>\<close>

text \<open>
  Go strings are byte sequences; they are modelled as \<^typ>\<open>string\<close> (lists of 8-bit
  characters). The functions of the Go standard library that the program calls are
  modelled first (for a Unix target: the path separator is \<^verbatim>\<open>/\<close> and there are no
  volume names), then the functions of \<^verbatim>\<open>main.go\<close> in terms of them.
\<close>

subsection \<open>Package \<^verbatim>\<open>strings\<close>\<close>

abbreviation LF :: char where "LF \<equiv> CHR 0x0A"
abbreviation CR :: char where "CR \<equiv> CHR 0x0D"

text \<open>\<^verbatim>\<open>strings.HasPrefix\<close>: \<^verbatim>\<open>len(s) >= len(prefix) && s[:len(prefix)] == prefix\<close>.\<close>

definition strings_HasPrefix :: "string \<Rightarrow> string \<Rightarrow> bool" where
  "strings_HasPrefix s pre = (length pre \<le> length s \<and> take (length pre) s = pre)"

text \<open>\<^verbatim>\<open>strings.HasSuffix\<close>: \<^verbatim>\<open>len(s) >= len(suffix) && s[len(s)-len(suffix):] == suffix\<close>.\<close>

definition strings_HasSuffix :: "string \<Rightarrow> string \<Rightarrow> bool" where
  "strings_HasSuffix s suf = (length suf \<le> length s \<and> drop (length s - length suf) s = suf)"

text \<open>\<^verbatim>\<open>strings.TrimSuffix\<close>: the string without the suffix when it has it, else the string.\<close>

definition strings_TrimSuffix :: "string \<Rightarrow> string \<Rightarrow> string" where
  "strings_TrimSuffix s suf =
     (if strings_HasSuffix s suf then take (length s - length suf) s else s)"

text \<open>
  \<^verbatim>\<open>strings.ReplaceAll(s, old, new)\<close> for a non-empty \<^verbatim>\<open>old\<close> (the program only passes
  \<^verbatim>\<open>"\r\n"\<close>, \<^verbatim>\<open>"."\<close> and \<^verbatim>\<open>"_"\<close>): one pass from the left over the non-overlapping
  occurrences. The replacement text is not scanned again.
\<close>

fun strings_ReplaceAll :: "string \<Rightarrow> string \<Rightarrow> string \<Rightarrow> string" where
  "strings_ReplaceAll [] old new = []"
| "strings_ReplaceAll (c # cs) old new =
     (if old \<noteq> [] \<and> strings_HasPrefix (c # cs) old
      then new @ strings_ReplaceAll (drop (length old) (c # cs)) old new
      else c # strings_ReplaceAll cs old new)"

text \<open>\<^verbatim>\<open>strings.TrimRight(s, cutset)\<close>: drops the trailing characters that are in the cutset.\<close>

definition strings_TrimRight :: "string \<Rightarrow> string \<Rightarrow> string" where
  "strings_TrimRight s cutset = rev (dropWhile (\<lambda>c. c \<in> set cutset) (rev s))"

text \<open>
  \<^verbatim>\<open>strings.Split(s, sep)\<close> for a non-empty separator: the fields between the
  non-overlapping occurrences of \<^verbatim>\<open>sep\<close>, found from the left; a string without the
  separator (the empty string too) gives one field.
\<close>

fun strings_Split :: "string \<Rightarrow> string \<Rightarrow> string list" where
  "strings_Split [] sep = [[]]"
| "strings_Split (c # cs) sep =
     (if sep \<noteq> [] \<and> strings_HasPrefix (c # cs) sep
      then [] # strings_Split (drop (length sep) (c # cs)) sep
      else (case strings_Split cs sep of
              [] \<Rightarrow> [[c]]
            | l # ls \<Rightarrow> (c # l) # ls))"

text \<open>\<^verbatim>\<open>strings.Join(elems, sep)\<close>.\<close>

fun strings_Join :: "string list \<Rightarrow> string \<Rightarrow> string" where
  "strings_Join [] sep = []"
| "strings_Join [x] sep = x"
| "strings_Join (x # y # ys) sep = x @ sep @ strings_Join (y # ys) sep"

text \<open>\<^verbatim>\<open>strings.Contains(s, substr)\<close>.\<close>

fun strings_Contains :: "string \<Rightarrow> string \<Rightarrow> bool" where
  "strings_Contains [] sub = (sub = [])"
| "strings_Contains (c # cs) sub = (strings_HasPrefix (c # cs) sub \<or> strings_Contains cs sub)"

text \<open>
  \<^verbatim>\<open>strings.ToLower\<close>. On a string of ASCII bytes only, Go adds \<^verbatim>\<open>'a' - 'A'\<close> to every
  byte in \<^verbatim>\<open>'A'..'Z'\<close>. On any other string it maps \<^verbatim>\<open>unicode.ToLower\<close> over the
  runes; that mapping is the parameter \<open>lowerUnicode\<close>, about which nothing is assumed.
\<close>

definition isASCII :: "char \<Rightarrow> bool" where
  "isASCII c = ((of_char c :: nat) < 128)"

definition lowerASCII :: "char \<Rightarrow> char" where
  "lowerASCII c =
     (if (65::nat) \<le> of_char c \<and> of_char c \<le> (90::nat)
      then char_of ((of_char c :: nat) + 32) else c)"

definition strings_ToLower :: "(string \<Rightarrow> string) \<Rightarrow> string \<Rightarrow> string" where
  "strings_ToLower lowerUnicode s =
     (if list_all isASCII s then map lowerASCII s else lowerUnicode s)"

subsection \<open>Package \<^verbatim>\<open>path/filepath\<close> (Unix)\<close>

text \<open>
  \<^verbatim>\<open>filepath.Base\<close>: the last element of the path. Trailing slashes are removed first;
  the empty path gives \<^verbatim>\<open>.\<close> and a path of slashes only gives \<^verbatim>\<open>/\<close>.
\<close>

definition filepath_Base :: "string \<Rightarrow> string" where
  "filepath_Base path =
     (if path = [] then ''.''
      else let p = strings_TrimRight path ''/'';
               e = rev (takeWhile (\<lambda>c. c \<noteq> CHR ''/'') (rev p))
           in if e = [] then ''/'' else e)"

text \<open>
  \<^verbatim>\<open>filepath.Clean\<close> works through the elements of the path from the left, keeping the
  elements of the result so far: an empty element and \<^verbatim>\<open>.\<close> are dropped, \<^verbatim>\<open>..\<close> removes
  the element before it when that is a name, is dropped at the root, and is kept at the
  front of a relative path; any other element is kept.
\<close>

definition cleanStep :: "bool \<Rightarrow> string list \<Rightarrow> string \<Rightarrow> string list" where
  "cleanStep rooted out e =
     (if e = [] \<or> e = ''.'' then out
      else if e = ''..'' then
        (if out \<noteq> [] \<and> last out \<noteq> ''..'' then butlast out
         else if rooted then out
         else out @ [''..''])
      else out @ [e])"

definition cleanElems :: "bool \<Rightarrow> string \<Rightarrow> string list" where
  "cleanElems rooted path = foldl (cleanStep rooted) [] (strings_Split path ''/'')"

definition renderPath :: "bool \<Rightarrow> string list \<Rightarrow> string" where
  "renderPath rooted out =
     (if rooted then CHR ''/'' # strings_Join out ''/''
      else if out = [] then ''.''
      else strings_Join out ''/'')"

definition isRooted :: "string \<Rightarrow> bool" where
  "isRooted path = (case path of [] \<Rightarrow> False | c # _ \<Rightarrow> c = CHR ''/'')"

definition filepath_Clean :: "string \<Rightarrow> string" where
  "filepath_Clean path =
     (if path = [] then ''.''
      else renderPath (isRooted path) (cleanElems (isRooted path) path))"

text \<open>
  \<^verbatim>\<open>filepath.Join\<close>: the leading empty elements are ignored, the others are joined by
  a slash and the result is cleaned; if every element is empty the result is empty.
\<close>

fun filepath_Join :: "string list \<Rightarrow> string" where
  "filepath_Join [] = []"
| "filepath_Join (e # es) =
     (if e \<noteq> [] then filepath_Clean (strings_Join (e # es) ''/'') else filepath_Join es)"

text \<open>\<^verbatim>\<open>filepath.Dir\<close>: the path up to its last slash, cleaned.\<close>

definition filepath_Dir :: "string \<Rightarrow> string" where
  "filepath_Dir path = filepath_Clean (rev (dropWhile (\<lambda>c. c \<noteq> CHR ''/'') (rev path)))"

text \<open>
  Notions for reasoning about cleaned paths: a proper file name, the shape of the
  element stack that \<^verbatim>\<open>Clean\<close> builds (some \<^verbatim>\<open>..\<close> elements, none if the path is
  rooted, followed by names), and element lists without slashes.
\<close>

definition plainName :: "string \<Rightarrow> bool" where
  "plainName n = (n \<noteq> [] \<and> CHR ''/'' \<notin> set n \<and> n \<noteq> ''.'' \<and> n \<noteq> ''..'')"

definition stackOK :: "bool \<Rightarrow> string list \<Rightarrow> bool" where
  "stackOK rooted cs =
     (\<exists>k names. cs = replicate k ''..'' @ names \<and> (rooted \<longrightarrow> k = 0) \<and>
        (\<forall>c\<in>set names. c \<noteq> [] \<and> c \<noteq> ''.'' \<and> c \<noteq> ''..''))"

definition noSlash :: "string list \<Rightarrow> bool" where
  "noSlash cs = (\<forall>c\<in>set cs. CHR ''/'' \<notin> set c)"

subsection \<open>Name derivation\<close>

text \<open>\<^verbatim>\<open>deriveSchemaNameFromFilename\<close> (lines 185 to 193).\<close>

definition deriveSchemaNameFromFilename :: "(string \<Rightarrow> string) \<Rightarrow> string \<Rightarrow> string" where
  "deriveSchemaNameFromFilename lowerUnicode filename =
     (let base = filepath_Base filename;
          base = strings_TrimSuffix base ''.pubsub.proto'';
          safe = strings_ToLower lowerUnicode base;
          safe = strings_ReplaceAll safe ''.'' ''-'';
          safe = strings_ReplaceAll safe ''_'' ''-''
      in safe)"

text \<open>ASCII letters and digits.\<close>

definition isAlnum :: "char \<Rightarrow> bool" where
  "isAlnum c =
     (((48::nat) \<le> of_char c \<and> of_char c \<le> (57::nat)) \<or>
      ((65::nat) \<le> of_char c \<and> of_char c \<le> (90::nat)) \<or>
      ((97::nat) \<le> of_char c \<and> of_char c \<le> (122::nat)))"

text \<open>
  The raw schema identifier of a file name: its base name without the fixed suffix.
\<close>

definition rawIdentifier :: "string \<Rightarrow> string" where
  "rawIdentifier filename = strings_TrimSuffix (filepath_Base filename) ''.pubsub.proto''"

definition identifierChar :: "char \<Rightarrow> bool" where
  "identifierChar c = (isAlnum c \<or> c = CHR ''.'' \<or> c = CHR ''_'')"

subsection \<open>Manifest synthesis\<close>

text \<open>\<^verbatim>\<open>normalizeNewlines\<close> (main.go, lines 108 to 113).\<close>

definition normalizeNewlines :: "string \<Rightarrow> string" where
  "normalizeNewlines s =
     strings_TrimRight (strings_ReplaceAll s [CR, LF] [LF]) [LF] @ [LF]"

text \<open>
  \<^verbatim>\<open>indentForYAMLLiteralBlock\<close> (lines 115 to 127): every field of the split, the last
  empty one too, gets the indent in front.
\<close>

definition indentForYAMLLiteralBlock :: "string \<Rightarrow> string \<Rightarrow> string" where
  "indentForYAMLLiteralBlock s indent =
     strings_Join
       (map (\<lambda>line. if line = [] then indent else indent @ line) (strings_Split s [LF]))
       [LF]"

text \<open>\<^verbatim>\<open>schemaManifest\<close> (lines 129 to 139).\<close>

definition schemaManifest :: "string \<Rightarrow> string \<Rightarrow> string" where
  "schemaManifest schemaName protoDefinition =
     ''apiVersion: pubsub.cnrm.cloud.google.com/v1beta1'' @ [LF] @
     ''kind: PubSubSchema'' @ [LF] @
     ''metadata:'' @ [LF] @
     ''  name: '' @ schemaName @ [LF] @
     ''spec:'' @ [LF] @
     ''  type: PROTOCOL_BUFFER'' @ [LF] @
     ''  definition: |'' @ [LF] @
     indentForYAMLLiteralBlock protoDefinition ''    ''"

text \<open>
  The inverse that the specification's round-trip property speaks of is not in the
  program. It is written here from the specification's words: split into lines, strip
  exactly the fixed indent from every line, join the lines again. A text in which some
  line does not begin with the indent has no such inverse: the result is \<open>None\<close>.
\<close>

definition stripIndent :: "string \<Rightarrow> string \<Rightarrow> string option" where
  "stripIndent s indent =
     (let ls = strings_Split s [LF]
      in if list_all (\<lambda>line. strings_HasPrefix line indent) ls
         then Some (strings_Join (map (drop (length indent)) ls) [LF])
         else None)"

text \<open>
  Newline normalization in the specification's words: convert every CRLF sequence to
  LF (the fields between the CRLF sequences, joined by LF), strip the trailing
  newlines, append one newline.
\<close>

definition crlfToLF :: "string \<Rightarrow> string" where
  "crlfToLF s = strings_Join (strings_Split s [CR, LF]) [LF]"

fun stripTrailingNewlines :: "string \<Rightarrow> string" where
  "stripTrailingNewlines [] = []"
| "stripTrailingNewlines (c # cs) =
     (if c = LF \<and> stripTrailingNewlines cs = [] then [] else c # stripTrailingNewlines cs)"

text \<open>
  The inputs whose normalized form still contains a CRLF sequence: those that end with
  a carriage return, and those in which a carriage return stands directly before a CRLF
  sequence.
\<close>

definition leavesCRLF :: "string \<Rightarrow> bool" where
  "leavesCRLF s = ((s \<noteq> [] \<and> last s = CR) \<or> strings_Contains s [CR, CR, LF])"

text \<open>
  The characters of a derived name when the raw identifier is made of identifier
  characters: lower-case letters, digits and the hyphen. \<open>safeChar\<close> is what the
  derivation does to one ASCII character.
\<close>

definition nameChar :: "char \<Rightarrow> bool" where
  "nameChar c =
     (((48::nat) \<le> of_char c \<and> of_char c \<le> (57::nat)) \<or>
      ((97::nat) \<le> of_char c \<and> of_char c \<le> (122::nat)) \<or> c = CHR ''-'')"

definition safeChar :: "char \<Rightarrow> char" where
  "safeChar c =
     (if lowerASCII c = CHR ''.'' \<or> lowerASCII c = CHR ''_'' then CHR ''-'' else lowerASCII c)"

subsection \<open>The file system and package \<^verbatim>\<open>os\<close>\<close>

text \<open>
  A file system is a finite map from cleaned paths to nodes; the working directory
  \<^verbatim>\<open>.\<close> and the root \<^verbatim>\<open>/\<close> are keys like the others. There are no symbolic links.
  Permissions, disk space and concurrent changes are not modelled: an operation fails
  only for the reasons written out below. Reading or writing a node that is neither a
  regular file nor a directory is reported as an error.
\<close>

datatype node = Regular string | Directory | Special

type_synonym filesystem = "(string, node) fmap"

datatype error =
    ErrBadPattern
  | ErrNoInputs
  | ErrUsage
  | ErrNotExist
  | ErrExist
  | ErrNotDir
  | ErrIsDir
  | ErrInvalid
  | ErrNotEmpty

text \<open>
  The kernel resolves a path element by element, from the root or from the working
  directory: every element, also an empty one, \<^verbatim>\<open>.\<close> and \<^verbatim>\<open>..\<close>, is looked up in the
  node reached so far, which must be a directory. So a path through a name that does
  not exist fails with \<^verbatim>\<open>ENOENT\<close>, also when a later \<^verbatim>\<open>..\<close> would cancel that name, and a
  path through a file fails with \<^verbatim>\<open>ENOTDIR\<close>. \<open>walk\<close> goes through the elements from the
  place \<open>cur\<close> (the elements of its cleaned path); without symbolic links an element
  leads where \<^verbatim>\<open>filepath.Clean\<close> says. The empty path does not resolve.
\<close>

fun walk :: "filesystem \<Rightarrow> bool \<Rightarrow> string list \<Rightarrow> string list \<Rightarrow> error + string list" where
  "walk fs rooted cur [] = Inr cur"
| "walk fs rooted cur (e # es) =
     (case fmlookup fs (renderPath rooted cur) of
        None \<Rightarrow> Inl ErrNotExist
      | Some Directory \<Rightarrow> walk fs rooted (cleanStep rooted cur e) es
      | Some _ \<Rightarrow> Inl ErrNotDir)"

definition resolve :: "filesystem \<Rightarrow> string \<Rightarrow> error + string" where
  "resolve fs path =
     (if path = [] then Inl ErrNotExist
      else case walk fs (isRooted path) [] (strings_Split path ''/'') of
             Inl e \<Rightarrow> Inl e
           | Inr cur \<Rightarrow> Inr (renderPath (isRooted path) cur))"

text \<open>
  Where a node is to be made, trailing slashes do not count: the elements up to the
  last one that is not empty are resolved.
\<close>

definition trimEmpty :: "string list \<Rightarrow> string list" where
  "trimEmpty es = rev (dropWhile (\<lambda>e. e = []) (rev es))"

definition resolveNew :: "filesystem \<Rightarrow> string \<Rightarrow> error + string" where
  "resolveNew fs path =
     (if path = [] then Inl ErrNotExist
      else case walk fs (isRooted path) [] (trimEmpty (strings_Split path ''/'')) of
             Inl e \<Rightarrow> Inl e
           | Inr cur \<Rightarrow> Inr (renderPath (isRooted path) cur))"

text \<open>\<^verbatim>\<open>FileMode.IsRegular\<close> and \<^verbatim>\<open>IsDir\<close> of the node that \<^verbatim>\<open>os.Stat\<close> describes.\<close>

definition IsRegular :: "node \<Rightarrow> bool" where
  "IsRegular n = (case n of Regular _ \<Rightarrow> True | _ \<Rightarrow> False)"

definition IsDir :: "node \<Rightarrow> bool" where
  "IsDir n = (case n of Directory \<Rightarrow> True | _ \<Rightarrow> False)"

definition os_Stat :: "filesystem \<Rightarrow> string \<Rightarrow> error + node" where
  "os_Stat fs path =
     (case resolve fs path of
        Inl e \<Rightarrow> Inl e
      | Inr key \<Rightarrow>
          (case fmlookup fs key of
             None \<Rightarrow> Inl ErrNotExist
           | Some n \<Rightarrow> Inr n))"

definition os_ReadFile :: "filesystem \<Rightarrow> string \<Rightarrow> error + string" where
  "os_ReadFile fs path =
     (case os_Stat fs path of
        Inl e \<Rightarrow> Inl e
      | Inr (Regular contents) \<Rightarrow> Inr contents
      | Inr Directory \<Rightarrow> Inl ErrIsDir
      | Inr Special \<Rightarrow> Inl ErrInvalid)"

text \<open>
  The entries of a directory are the keys that are the directory's path joined with
  their own base name, that name being a proper file name. \<^verbatim>\<open>os.ReadDir\<close> returns
  the entries sorted by file name; an entry is a name and whether it is a directory.
\<close>

definition isEntryOf :: "string \<Rightarrow> string \<Rightarrow> bool" where
  "isEntryOf dir k =
     (let n = filepath_Base k
      in n \<noteq> ''.'' \<and> n \<noteq> ''..'' \<and> n \<noteq> ''/'' \<and> filepath_Join [dir, n] = k)"

definition entryNames :: "filesystem \<Rightarrow> string \<Rightarrow> string list" where
  "entryNames fs dir =
     sort (map filepath_Base (filter (isEntryOf dir) (sorted_list_of_fset (fmdom fs))))"

definition os_ReadDir :: "filesystem \<Rightarrow> string \<Rightarrow> error + (string \<times> bool) list" where
  "os_ReadDir fs dir =
     (case os_Stat fs dir of
        Inl e \<Rightarrow> Inl e
      | Inr Directory \<Rightarrow>
          Inr (map (\<lambda>n. (n, fmlookup fs (filepath_Join [dir, n]) = Some Directory))
                 (entryNames fs dir))
      | Inr _ \<Rightarrow> Inl ErrNotDir)"

text \<open>
  The operations that change the file system return Go's \<^verbatim>\<open>error\<close> (\<open>None\<close> is
  \<^verbatim>\<open>nil\<close>) and the file system they leave behind. \<^verbatim>\<open>os.Remove\<close> removes a file or an
  empty directory; the kernel refuses a path whose last element is \<^verbatim>\<open>.\<close> or \<^verbatim>\<open>..\<close>, and
  the root.
\<close>

definition os_Remove :: "string \<Rightarrow> filesystem \<Rightarrow> error option \<times> filesystem" where
  "os_Remove path fs =
     (case resolve fs path of
        Inl e \<Rightarrow> (Some e, fs)
      | Inr key \<Rightarrow>
          (case fmlookup fs key of
             None \<Rightarrow> (Some ErrNotExist, fs)
           | Some n \<Rightarrow>
               if filepath_Base path = ''.'' \<or> filepath_Base path = ''..'' \<or>
                  filepath_Base path = ''/''
               then (Some ErrInvalid, fs)
               else if IsDir n \<and> entryNames fs key \<noteq> [] then (Some ErrNotEmpty, fs)
               else (None, fmdrop key fs)))"

text \<open>
  \<^verbatim>\<open>os.Mkdir\<close> makes one directory, in a parent that exists; a path of slashes only is
  the root, which exists.
\<close>

definition os_Mkdir :: "string \<Rightarrow> filesystem \<Rightarrow> error option \<times> filesystem" where
  "os_Mkdir path fs =
     (case resolveNew fs path of
        Inl e \<Rightarrow> (Some e, fs)
      | Inr key \<Rightarrow>
          if trimEmpty (strings_Split path ''/'') = [] then (Some ErrExist, fs)
          else (case fmlookup fs key of
                  Some _ \<Rightarrow> (Some ErrExist, fs)
                | None \<Rightarrow> (None, fmupd key Directory fs)))"

text \<open>
  \<^verbatim>\<open>os.MkdirAll\<close>, as in Go: if the path is a directory there is nothing to do, if it
  is something else the call fails; otherwise the parent (the path up to the slash
  before its last element, trailing slashes aside) is made first, when it is not
  empty, and then the directory itself; if that fails and the path is a directory after
  all, the call succeeds.
\<close>

definition mkdirParent :: "string \<Rightarrow> string" where
  "mkdirParent path =
     rev (tl (dropWhile (\<lambda>c. c \<noteq> CHR ''/'') (dropWhile (\<lambda>c. c = CHR ''/'') (rev path))))"

function os_MkdirAll :: "string \<Rightarrow> filesystem \<Rightarrow> error option \<times> filesystem" where
  "os_MkdirAll path fs =
     (case os_Stat fs path of
        Inr n \<Rightarrow> if IsDir n then (None, fs) else (Some ErrNotDir, fs)
      | Inl _ \<Rightarrow>
          (case (if mkdirParent path \<noteq> [] then os_MkdirAll (mkdirParent path) fs
                 else (None, fs)) of
             (Some e, fs') \<Rightarrow> (Some e, fs')
           | (None, fs') \<Rightarrow>
               (case os_Mkdir path fs' of
                  (None, fs'') \<Rightarrow> (None, fs'')
                | (Some e, fs'') \<Rightarrow>
                    (case os_Stat fs'' path of
                       Inr Directory \<Rightarrow> (None, fs'')
                     | _ \<Rightarrow> (Some e, fs'')))))"
  by pat_completeness auto
termination
proof (relation "measure (\<lambda>(path, fs). length path)")
  show "wf (measure (\<lambda>(path, fs). length path))" by simp
next
  fix path :: string and fs :: filesystem and x
  assume ne: "mkdirParent path \<noteq> []"
  define r where
    "r = dropWhile (\<lambda>c. c \<noteq> CHR ''/'') (dropWhile (\<lambda>c. c = CHR ''/'') (rev path))"
  have mp: "mkdirParent path = rev (tl r)" by (simp add: mkdirParent_def r_def)
  have "tl r \<noteq> []" using ne unfolding mp by simp
  then have "r \<noteq> []" by (cases r) simp_all
  then have a: "length (tl r) < length r" by (cases r) simp_all
  have "length r \<le> length (dropWhile (\<lambda>c. c = CHR ''/'') (rev path))"
    unfolding r_def by (rule length_dropWhile_le)
  also have "\<dots> \<le> length (rev path)" by (rule length_dropWhile_le)
  finally have b: "length r \<le> length path" by simp
  have "length (mkdirParent path) < length path" unfolding mp using a b by simp
  then show "((mkdirParent path, fs), (path, fs)) \<in> measure (\<lambda>(path, fs). length path)"
    by simp
qed

text \<open>
  \<^verbatim>\<open>os.WriteFile\<close> opens the path for writing, creating the file if there is none and
  truncating it otherwise. A path that ends with a slash names a directory.
\<close>

definition os_WriteFile :: "string \<Rightarrow> string \<Rightarrow> filesystem \<Rightarrow> error option \<times> filesystem" where
  "os_WriteFile path contents fs =
     (case resolveNew fs path of
        Inl e \<Rightarrow> (Some e, fs)
      | Inr key \<Rightarrow>
          if last path = CHR ''/'' then (Some ErrIsDir, fs)
          else (case fmlookup fs key of
                  Some Directory \<Rightarrow> (Some ErrIsDir, fs)
                | Some Special \<Rightarrow> (Some ErrInvalid, fs)
                | _ \<Rightarrow> (None, fmupd key (Regular contents) fs)))"

subsection \<open>Output directory management\<close>

text \<open>\<^verbatim>\<open>writeFile\<close> (lines 141 to 148).\<close>

definition writeFile :: "string \<Rightarrow> string \<Rightarrow> filesystem \<Rightarrow> error option \<times> filesystem" where
  "writeFile path contents fs =
     (case os_MkdirAll (filepath_Dir path) fs of
        (Some e, fs') \<Rightarrow> (Some e, fs')
      | (None, fs') \<Rightarrow> os_WriteFile path (strings_ReplaceAll contents [CR, LF] [LF]) fs')"

text \<open>\<^verbatim>\<open>removeGeneratedSchemas\<close> (lines 150 to 170); \<open>removeEntries\<close> is its loop.\<close>

fun removeEntries :: "string \<Rightarrow> (string \<times> bool) list \<Rightarrow> filesystem \<Rightarrow> error option \<times> filesystem" where
  "removeEntries outputDir [] fs = (None, fs)"
| "removeEntries outputDir ((name, isDir) # entries) fs =
     (if isDir then removeEntries outputDir entries fs
      else if strings_HasSuffix name ''.schema.yaml'' then
        (case os_Remove (filepath_Join [outputDir, name]) fs of
           (Some e, fs') \<Rightarrow> (Some e, fs')
         | (None, fs') \<Rightarrow> removeEntries outputDir entries fs')
      else removeEntries outputDir entries fs)"

definition removeGeneratedSchemas :: "string \<Rightarrow> filesystem \<Rightarrow> error option \<times> filesystem" where
  "removeGeneratedSchemas outputDir fs =
     (case os_ReadDir fs outputDir of
        Inl e \<Rightarrow> if e = ErrNotExist then (None, fs) else (Some e, fs)
      | Inr entries \<Rightarrow> removeEntries outputDir entries fs)"

text \<open>\<^verbatim>\<open>writeKustomization\<close> (lines 172 to 183); \<open>kustomizationText\<close> is what the builder holds.\<close>

definition kustomizationText :: "string list \<Rightarrow> string" where
  "kustomizationText resources =
     foldl (\<lambda>b r. b @ ''  - '' @ r @ [LF])
       (''apiVersion: kustomize.config.k8s.io/v1beta1'' @ [LF] @
        ''kind: Kustomization'' @ [LF, LF] @
        ''resources:'' @ [LF])
       resources"

definition writeKustomization :: "string \<Rightarrow> string list \<Rightarrow> filesystem \<Rightarrow> error option \<times> filesystem" where
  "writeKustomization outputDir resources fs =
     writeFile (filepath_Join [outputDir, ''kustomization.yaml'']) (kustomizationText resources) fs"

subsection \<open>Orchestration\<close>

text \<open>The world of a run: the file system and the lines printed on standard output.\<close>

record world =
  files :: filesystem
  stdout :: "string list"

text \<open>
  \<^verbatim>\<open>resolveInputs\<close> (lines 55 to 73). \<^verbatim>\<open>filepath.Glob\<close> is a parameter: \<open>glob pattern\<close>
  is what it returns for the pattern in the file system at hand, the error
  \<^verbatim>\<open>ErrBadPattern\<close> for a malformed pattern. \<open>keepRegular\<close> is the loop over the matches.
\<close>

fun keepRegular :: "filesystem \<Rightarrow> string list \<Rightarrow> string list \<Rightarrow> string list" where
  "keepRegular fs [] acc = acc"
| "keepRegular fs (m # matches) acc =
     (case os_Stat fs m of
        Inl _ \<Rightarrow> keepRegular fs matches acc
      | Inr st \<Rightarrow>
          if IsRegular st then keepRegular fs matches (acc @ [m])
          else keepRegular fs matches acc)"

definition resolveInputs ::
  "(string \<Rightarrow> error + string list) \<Rightarrow> filesystem \<Rightarrow> string \<Rightarrow> string \<Rightarrow> error + string list" where
  "resolveInputs glob fs pubsubDir globPattern =
     (case glob (filepath_Join [pubsubDir, globPattern]) of
        Inl e \<Rightarrow> Inl e
      | Inr matches \<Rightarrow> Inr (sort (keepRegular fs matches [])))"

text \<open>
  \<^verbatim>\<open>generateAll\<close> (lines 75 to 106); \<open>generateEach\<close> is its loop over the input files,
  with the list of generated base names so far.
\<close>

definition outputPath :: "(string \<Rightarrow> string) \<Rightarrow> string \<Rightarrow> string \<Rightarrow> string" where
  "outputPath lowerUnicode outputDir p =
     filepath_Join [outputDir, deriveSchemaNameFromFilename lowerUnicode p @ ''.schema.yaml'']"

fun generateEach ::
  "(string \<Rightarrow> string) \<Rightarrow> string \<Rightarrow> string list \<Rightarrow> string list \<Rightarrow> world
     \<Rightarrow> (error + string list) \<times> world" where
  "generateEach lowerUnicode outputDir [] generated w = (Inr generated, w)"
| "generateEach lowerUnicode outputDir (p # ps) generated w =
     (case os_ReadFile (files w) p of
        Inl e \<Rightarrow> (Inl e, w)
      | Inr proto \<Rightarrow>
          (let name = deriveSchemaNameFromFilename lowerUnicode p;
               out = filepath_Join [outputDir, name @ ''.schema.yaml''];
               manifest = schemaManifest name (normalizeNewlines proto)
           in case writeFile out manifest (files w) of
                (Some e, fs') \<Rightarrow> (Inl e, w\<lparr>files := fs'\<rparr>)
              | (None, fs') \<Rightarrow>
                  generateEach lowerUnicode outputDir ps
                    (generated @ [filepath_Base out])
                    (w\<lparr>files := fs',
                       stdout := stdout w @ [''Wrote '' @ name @ '' -> '' @ out @ [LF]]\<rparr>)))"

definition generateAll ::
  "(string \<Rightarrow> string) \<Rightarrow> string list \<Rightarrow> string \<Rightarrow> world \<Rightarrow> error option \<times> world" where
  "generateAll lowerUnicode pubsubFiles outputDir w =
     (if length pubsubFiles = 0 then (Some ErrNoInputs, w)
      else case removeGeneratedSchemas outputDir (files w) of
             (Some e, fs') \<Rightarrow> (Some e, w\<lparr>files := fs'\<rparr>)
           | (None, fs') \<Rightarrow>
               (case generateEach lowerUnicode outputDir pubsubFiles [] (w\<lparr>files := fs'\<rparr>) of
                  (Inl e, w') \<Rightarrow> (Some e, w')
                | (Inr generated, w') \<Rightarrow>
                    (case writeKustomization outputDir (sort generated) (files w') of
                       (r, fs'') \<Rightarrow> (r, w'\<lparr>files := fs''\<rparr>))))"

text \<open>
  \<^verbatim>\<open>run\<close> (lines 21 to 40), from the parsed flag values on (the parsing of the
  arguments and the usage text written to standard error are not modelled).
\<close>

definition run ::
  "(filesystem \<Rightarrow> string \<Rightarrow> error + string list) \<Rightarrow> (string \<Rightarrow> string)
     \<Rightarrow> string \<Rightarrow> string \<Rightarrow> string \<Rightarrow> world \<Rightarrow> error option \<times> world" where
  "run glob lowerUnicode pubsubDir globPattern outputDir w =
     (if outputDir = [] then (Some ErrUsage, w)
      else case resolveInputs (glob (files w)) (files w) pubsubDir globPattern of
             Inl e \<Rightarrow> (Some e, w)
           | Inr fileList \<Rightarrow> generateAll lowerUnicode fileList outputDir w)"

text \<open>
  What the cleanup is to delete: an entry of the output directory that is not a
  directory and whose name ends with \<^verbatim>\<open>.schema.yaml\<close>.
\<close>

definition staleManifest :: "string \<Rightarrow> filesystem \<Rightarrow> string \<Rightarrow> bool" where
  "staleManifest outputDir fs k =
     (isEntryOf outputDir k \<and>
      (case fmlookup fs k of None \<Rightarrow> False | Some n \<Rightarrow> \<not> IsDir n) \<and>
      strings_HasSuffix (filepath_Base k) ''.schema.yaml'')"

text \<open>
  One file system extends another by directories: every path has the node it had, or
  had none and is now a directory. This is what \<^verbatim>\<open>os.MkdirAll\<close> does.
\<close>

definition dirExt :: "filesystem \<Rightarrow> filesystem \<Rightarrow> bool" where
  "dirExt fs fs' =
     (\<forall>k. fmlookup fs' k = fmlookup fs k \<or>
          (fmlookup fs k = None \<and> fmlookup fs' k = Some Directory))"

text \<open>
  One file system keeps the directories of another: every directory is still one. The
  directories along a place: the place and every place above it is a directory.
\<close>

definition dirsKept :: "filesystem \<Rightarrow> filesystem \<Rightarrow> bool" where
  "dirsKept fs fs' =
     (\<forall>k. fmlookup fs k = Some Directory \<longrightarrow> fmlookup fs' k = Some Directory)"

definition dirsAlong :: "filesystem \<Rightarrow> bool \<Rightarrow> string list \<Rightarrow> bool" where
  "dirsAlong fs rooted cur =
     (\<forall>k\<le>length cur. fmlookup fs (renderPath rooted (take k cur)) = Some Directory)"

text \<open>
  The base name that \<^verbatim>\<open>generateAll\<close> records for an input file, and the path of the
  index manifest.
\<close>

definition resourceName :: "(string \<Rightarrow> string) \<Rightarrow> string \<Rightarrow> string \<Rightarrow> string" where
  "resourceName lowerUnicode outputDir p = filepath_Base (outputPath lowerUnicode outputDir p)"

definition indexPath :: "string \<Rightarrow> string" where
  "indexPath outputDir = filepath_Join [outputDir, ''kustomization.yaml'']"

subsection \<open>Worlds of the examples\<close>

text \<open>Whether \<^verbatim>\<open>os.Stat\<close> succeeds on a path and reports a regular file.\<close>

definition statsRegular :: "filesystem \<Rightarrow> string \<Rightarrow> bool" where
  "statsRegular fs m = (case os_Stat fs m of Inl _ \<Rightarrow> False | Inr st \<Rightarrow> IsRegular st)"

text \<open>
  The end-to-end example of the specification: the input directory (the default one)
  holds exactly the file \<^verbatim>\<open>coreapp.test.v1.TestEvent.pubsub.proto\<close> with the content
  \<^verbatim>\<open>message TestEvent {}\<close> and a line feed; there is no output directory yet. In this
  file system the default glob matches that one file.
\<close>

definition exampleFiles :: filesystem where
  "exampleFiles = fmap_of_list
     [(''.'', Directory), (''gen'', Directory), (''gen/proto'', Directory),
      (''gen/proto/infra'', Directory), (''gen/proto/infra/pubsub'', Directory),
      (''gen/proto/infra/pubsub/coreapp.test.v1.TestEvent.pubsub.proto'',
         Regular (''message TestEvent {}'' @ [LF]))]"

definition exampleGlob :: "filesystem \<Rightarrow> string \<Rightarrow> error + string list" where
  "exampleGlob fs pattern =
     (if pattern = ''gen/proto/infra/pubsub/*.pubsub.proto''
      then Inr [''gen/proto/infra/pubsub/coreapp.test.v1.TestEvent.pubsub.proto'']
      else Inr [])"

definition exampleRun :: "error option \<times> world" where
  "exampleRun =
     run exampleGlob (\<lambda>s. s) ''gen/proto/infra/pubsub'' ''*.pubsub.proto'' ''out''
       \<lparr>files = exampleFiles, stdout = []\<rparr>"

text \<open>
  A file system with an output directory that holds a stale manifest, a directory
  whose name ends like a manifest, a file inside it, and another file; and one in which
  nothing matches the glob.
\<close>

definition staleFiles :: filesystem where
  "staleFiles = fmap_of_list
     [(''.'', Directory), (''out'', Directory),
      (''out/old.schema.yaml'', Regular ''x''),
      (''out/dir.schema.yaml'', Directory),
      (''out/dir.schema.yaml/in.schema.yaml'', Regular ''y''),
      (''out/kustomization.yaml'', Regular ''z''),
      (''old.schema.yaml'', Regular ''w'')]"

definition noMatchGlob :: "filesystem \<Rightarrow> string \<Rightarrow> error + string list" where
  "noMatchGlob fs pattern = Inr []"

text \<open>
  A glob result with a regular file, a directory, a name that cannot be stat'ed, a
  second regular file and a special file, not in order.
\<close>

definition mixedFiles :: filesystem where
  "mixedFiles = fmap_of_list
     [(''.'', Directory), (''in'', Directory),
      (''in/b.pubsub.proto'', Regular ''b''),
      (''in/d.pubsub.proto'', Directory),
      (''in/a.pubsub.proto'', Regular ''a''),
      (''in/s.pubsub.proto'', Special)]"

definition mixedGlob :: "string \<Rightarrow> error + string list" where
  "mixedGlob pattern =
     (if pattern = ''in/*.pubsub.proto''
      then Inr [''in/b.pubsub.proto'', ''in/d.pubsub.proto'', ''in/gone.pubsub.proto'',
                ''in/a.pubsub.proto'', ''in/s.pubsub.proto'']
      else Inl ErrBadPattern)"

text \<open>
  Two inputs whose derived names are \<^verbatim>\<open>a\<close> and \<^verbatim>\<open>b\<close>, given to \<^verbatim>\<open>generateAll\<close> in the
  order \<^verbatim>\<open>b\<close>, \<^verbatim>\<open>a\<close>.
\<close>

definition twoFiles :: filesystem where
  "twoFiles = fmap_of_list
     [(''.'', Directory), (''in'', Directory),
      (''in/a.pubsub.proto'', Regular (''message A {}'' @ [LF])),
      (''in/b.pubsub.proto'', Regular (''message B {}'' @ [LF]))]"

definition twoRun :: "error option \<times> world" where
  "twoRun = generateAll (\<lambda>s. s) [''in/b.pubsub.proto'', ''in/a.pubsub.proto''] ''out''
              \<lparr>files = twoFiles, stdout = []\<rparr>"

text \<open>
  Two inputs that derive the same name \<^verbatim>\<open>x-y\<close>, in sorted order.
\<close>

definition clashFiles :: filesystem where
  "clashFiles = fmap_of_list
     [(''.'', Directory), (''in'', Directory),
      (''in/x.y.pubsub.proto'', Regular (''message First {}'' @ [LF])),
      (''in/x_y.pubsub.proto'', Regular (''message Second {}'' @ [LF]))]"

definition clashRun :: "error option \<times> world" where
  "clashRun = generateAll (\<lambda>s. s) ([''in/x.y.pubsub.proto''] @ ''in/x_y.pubsub.proto'' # []) ''out''
                \<lparr>files = clashFiles, stdout = []\<rparr>"

section \<open>Properties\<close>

subsection \<open>Strings\<close>

lemma HasPrefix_Cons:
  "strings_HasPrefix (c # cs) (d # ds) = (c = d \<and> strings_HasPrefix cs ds)"
  by (auto simp: strings_HasPrefix_def)

lemma HasPrefix_single: "strings_HasPrefix (c # cs) [d] = (c = d)"
  by (auto simp: strings_HasPrefix_def)

lemma HasPrefix_Nil [simp]: "strings_HasPrefix s []"
  by (simp add: strings_HasPrefix_def)

lemma HasPrefix_Nil_left [simp]: "strings_HasPrefix [] p = (p = [])"
  by (auto simp: strings_HasPrefix_def)

lemma TrimRight_last:
  "strings_TrimRight s cs = [] \<or> last (strings_TrimRight s cs) \<notin> set cs"
proof (cases "dropWhile (\<lambda>c. c \<in> set cs) (rev s)")
  case Nil
  then show ?thesis by (simp add: strings_TrimRight_def)
next
  case (Cons a as)
  then have "a \<notin> set cs" using hd_dropWhile[of "\<lambda>c. c \<in> set cs" "rev s"] by auto
  with Cons show ?thesis by (simp add: strings_TrimRight_def)
qed

lemma set_TrimRight: "set (strings_TrimRight s cs) \<subseteq> set s"
  unfolding strings_TrimRight_def using set_dropWhileD by fastforce

lemma TrimRight_id: "s \<noteq> [] \<Longrightarrow> last s \<notin> set cs \<Longrightarrow> strings_TrimRight s cs = s"
  by (cases s rule: rev_cases) (auto simp: strings_TrimRight_def)

lemma ReplaceAll_char:
  "strings_ReplaceAll s [a] [b] = map (\<lambda>c. if c = a then b else c) s"
  by (induction s) (auto simp: HasPrefix_single)

lemma Contains_hd: "strings_Contains s (c # r) \<Longrightarrow> c \<in> set s"
  by (induction s) (auto simp: HasPrefix_Cons)

lemma HasSuffix_set: "strings_HasSuffix s suf \<Longrightarrow> set suf \<subseteq> set s"
  unfolding strings_HasSuffix_def by (metis set_drop_subset)

lemma TrimSuffix_id: "c \<in> set suf \<Longrightarrow> c \<notin> set s \<Longrightarrow> strings_TrimSuffix s suf = s"
  using HasSuffix_set[of s suf] by (auto simp: strings_TrimSuffix_def)

lemma Split_nonempty: "strings_Split s sep \<noteq> []"
  by (induction s sep rule: strings_Split.induct) (auto split: list.splits)

lemma Split_single_Cons:
  "strings_Split (c # cs) [d] =
     (if c = d then [] # strings_Split cs [d]
      else (c # hd (strings_Split cs [d])) # tl (strings_Split cs [d]))"
  using Split_nonempty[of cs "[d]"]
  by (cases "strings_Split cs [d]") (auto simp: HasPrefix_single)

lemma Join_Cons: "ls \<noteq> [] \<Longrightarrow> strings_Join (l # ls) sep = l @ sep @ strings_Join ls sep"
  by (cases ls) auto

lemma Join_Cons_hd:
  "ls \<noteq> [] \<Longrightarrow> strings_Join ((c # hd ls) # tl ls) sep = c # strings_Join ls sep"
  by (cases ls; cases "tl ls") auto

lemma Join_Split: "strings_Join (strings_Split s [d]) [d] = s"
proof (induction s)
  case Nil
  then show ?case by simp
next
  case (Cons c cs)
  show ?case
    using Cons Split_nonempty[of cs "[d]"]
    by (simp add: Split_single_Cons Join_Cons Join_Cons_hd del: strings_Split.simps(2))
qed

lemma Split_no_sep: "l \<in> set (strings_Split s [d]) \<Longrightarrow> d \<notin> set l"
proof (induction s arbitrary: l)
  case Nil
  then show ?case by simp
next
  case (Cons c cs)
  obtain x xs where sp: "strings_Split cs [d] = x # xs"
    using Split_nonempty[of cs "[d]"] by (cases "strings_Split cs [d]") auto
  show ?case
  proof (cases "c = d")
    case True
    with Cons show ?thesis by (auto simp: Split_single_Cons simp del: strings_Split.simps(2))
  next
    case False
    with Cons.prems sp have "l = c # x \<or> l \<in> set xs"
      by (auto simp: Split_single_Cons simp del: strings_Split.simps(2))
    then show ?thesis using Cons.IH[of x] Cons.IH[of l] sp False by auto
  qed
qed

lemma Split_no_sep_string: "d \<notin> set l \<Longrightarrow> strings_Split l [d] = [l]"
  by (induction l) (auto simp: Split_single_Cons simp del: strings_Split.simps(2))

lemma Split_append_sep:
  "d \<notin> set l \<Longrightarrow> strings_Split (l @ d # r) [d] = l # strings_Split r [d]"
  by (induction l) (auto simp: Split_single_Cons simp del: strings_Split.simps(2))

lemma Split_Join:
  "ls \<noteq> [] \<Longrightarrow> \<forall>l\<in>set ls. d \<notin> set l \<Longrightarrow> strings_Split (strings_Join ls [d]) [d] = ls"
proof (induction ls "[d]" rule: strings_Join.induct)
  case 1
  then show ?case by simp
next
  case (2 x)
  then show ?case by (simp add: Split_no_sep_string)
next
  case (3 x y ys)
  then show ?case by (simp add: Split_append_sep del: strings_Split.simps(2))
qed

subsection \<open>Paths\<close>

lemma Split_append:
  "strings_Split (a @ d # b) [d] = strings_Split a [d] @ strings_Split b [d]"
proof (induction a)
  case Nil
  then show ?case by (simp add: Split_single_Cons del: strings_Split.simps(2))
next
  case (Cons c cs)
  have ne: "strings_Split cs [d] \<noteq> []" by (rule Split_nonempty)
  show ?case
    using Cons ne
    by (cases "strings_Split cs [d]") (auto simp: Split_single_Cons simp del: strings_Split.simps(2))
qed

lemma stackOK_Nil: "stackOK r []"
  unfolding stackOK_def by (rule exI[of _ 0], rule exI[of _ "[]"]) simp

lemma stackOK_step:
  assumes "stackOK r cs"
  shows "stackOK r (cleanStep r cs e)"
proof -
  from assms obtain k names where
    cs: "cs = replicate k ''..'' @ names" and rk: "r \<longrightarrow> k = 0"
    and nm: "\<forall>c\<in>set names. c \<noteq> [] \<and> c \<noteq> ''.'' \<and> c \<noteq> ''..''"
    unfolding stackOK_def by blast
  consider (skip) "e = [] \<or> e = ''.''" | (up) "e = ''..''" | (name) "e \<noteq> []" "e \<noteq> ''.''" "e \<noteq> ''..''"
    by blast
  then show ?thesis
  proof cases
    case skip
    then show ?thesis using assms by (auto simp: cleanStep_def)
  next
    case name
    have "cleanStep r cs e = replicate k ''..'' @ (names @ [e])"
      using name cs by (simp add: cleanStep_def)
    moreover have "\<forall>c\<in>set (names @ [e]). c \<noteq> [] \<and> c \<noteq> ''.'' \<and> c \<noteq> ''..''"
      using nm name by auto
    ultimately show ?thesis unfolding stackOK_def using rk by blast
  next
    case up
    show ?thesis
    proof (cases "names = []")
      case True
      then have csr: "cs = replicate k ''..''" using cs by simp
      have nolast: "\<not> (cs \<noteq> [] \<and> last cs \<noteq> ''..'')"
        using csr by (cases k) auto
      show ?thesis
      proof (cases r)
        case True
        have "cleanStep r cs e = cs" using up nolast True by (auto simp: cleanStep_def)
        then show ?thesis using assms by simp
      next
        case False
        have "cleanStep r cs e = cs @ [''..'']"
          using up nolast False by (auto simp: cleanStep_def)
        then have "cleanStep r cs e = replicate (Suc k) ''..'' @ []"
          unfolding csr by (simp add: replicate_append_same)
        then show ?thesis unfolding stackOK_def using False by (metis empty_iff list.set(1))
      qed
    next
      case False
      then have l: "last cs = last names" and ne: "cs \<noteq> []" using cs by auto
      have "last names \<in> set names" using False by simp
      then have "last cs \<noteq> ''..''" using nm l by auto
      then have "cleanStep r cs e = replicate k ''..'' @ butlast names"
        using up ne cs False by (simp add: cleanStep_def butlast_append)
      moreover have "\<forall>c\<in>set (butlast names). c \<noteq> [] \<and> c \<noteq> ''.'' \<and> c \<noteq> ''..''"
        using nm by (meson in_set_butlastD)
      ultimately show ?thesis unfolding stackOK_def using rk by blast
    qed
  qed
qed

lemma stackOK_foldl: "stackOK r acc \<Longrightarrow> stackOK r (foldl (cleanStep r) acc es)"
  by (induction es arbitrary: acc) (auto simp: stackOK_step)

lemma set_cleanStep: "set (cleanStep r cs e) \<subseteq> set cs \<union> {e}"
  by (auto simp: cleanStep_def dest: in_set_butlastD)

lemma set_foldl_cleanStep: "set (foldl (cleanStep r) acc es) \<subseteq> set acc \<union> set es"
proof (induction es arbitrary: acc)
  case Nil
  then show ?case by simp
next
  case (Cons e es)
  show ?case using Cons[of "cleanStep r acc e"] set_cleanStep[of r acc e] by auto
qed

lemma cleanElems_OK: "stackOK r (cleanElems r p)"
  unfolding cleanElems_def by (rule stackOK_foldl[OF stackOK_Nil])

lemma cleanElems_noslash: "c \<in> set (cleanElems r p) \<Longrightarrow> CHR ''/'' \<notin> set c"
  using set_foldl_cleanStep[of r "[]" "strings_Split p ''/''"] Split_no_sep[of c p "CHR ''/''"]
  unfolding cleanElems_def by auto

lemma foldl_names:
  "\<forall>c\<in>set names. c \<noteq> [] \<and> c \<noteq> ''.'' \<and> c \<noteq> ''..'' \<Longrightarrow>
   foldl (cleanStep r) acc names = acc @ names"
  by (induction names arbitrary: acc) (auto simp: cleanStep_def)

lemma foldl_dots:
  "\<not> r \<Longrightarrow> foldl (cleanStep r) (replicate j ''..'') (replicate k ''..'') = replicate (j + k) ''..''"
proof (induction k arbitrary: j)
  case 0
  then show ?case by simp
next
  case (Suc k)
  have "cleanStep r (replicate j ''..'') ''..'' = replicate (Suc j) ''..''"
    using Suc.prems by (cases j) (auto simp: cleanStep_def replicate_append_same)
  then show ?case using Suc.IH[OF Suc.prems, of "Suc j"] by simp
qed

lemma foldl_stackOK: "stackOK r cs \<Longrightarrow> foldl (cleanStep r) [] cs = cs"
proof -
  assume "stackOK r cs"
  then obtain k names where
    cs: "cs = replicate k ''..'' @ names" and rk: "r \<longrightarrow> k = 0"
    and nm: "\<forall>c\<in>set names. c \<noteq> [] \<and> c \<noteq> ''.'' \<and> c \<noteq> ''..''"
    unfolding stackOK_def by blast
  have d: "foldl (cleanStep r) [] (replicate k ''..'') = replicate k ''..''"
  proof (cases r)
    case True
    then show ?thesis using rk by simp
  next
    case False
    then show ?thesis using foldl_dots[of r 0 k] by simp
  qed
  show ?thesis unfolding cs foldl_append d using nm by (rule foldl_names)
qed

lemma Join_snoc:
  "strings_Join (cs @ [n]) sep = (if cs = [] then n else strings_Join cs sep @ sep @ n)"
  by (induction cs sep rule: strings_Join.induct) auto

lemma Join_hd: "cs \<noteq> [] \<Longrightarrow> hd cs \<noteq> [] \<Longrightarrow>
  strings_Join cs sep \<noteq> [] \<and> hd (strings_Join cs sep) = hd (hd cs)"
  by (induction cs sep rule: strings_Join.induct) auto

lemma stackOK_elem_nonempty:
  assumes "stackOK r cs" "c \<in> set cs"
  shows "c \<noteq> []"
proof -
  from assms(1) obtain k names where
    cs: "cs = replicate k ''..'' @ names"
    and nm: "\<forall>c\<in>set names. c \<noteq> [] \<and> c \<noteq> ''.'' \<and> c \<noteq> ''..''"
    unfolding stackOK_def by blast
  from assms(2) cs have "c = ''..'' \<or> c \<in> set names" by auto
  then show ?thesis using nm by auto
qed

lemma render_nonempty: "stackOK r cs \<Longrightarrow> renderPath r cs \<noteq> []"
proof (cases cs)
  case Nil
  then show ?thesis by (simp add: renderPath_def)
next
  case (Cons c cs')
  assume ok: "stackOK r cs"
  have "hd cs \<noteq> []" using ok Cons stackOK_elem_nonempty[of r cs c] by simp
  then have "strings_Join cs ''/'' \<noteq> []" using Join_hd[of cs "''/''"] Cons by simp
  then show ?thesis by (simp add: renderPath_def)
qed

lemma isRooted_render:
  assumes "stackOK r cs" "noSlash cs"
  shows "isRooted (renderPath r cs) = r"
proof (cases r)
  case True
  then show ?thesis by (simp add: renderPath_def isRooted_def)
next
  case False
  show ?thesis
  proof (cases cs)
    case Nil
    then show ?thesis using False by (simp add: renderPath_def isRooted_def)
  next
    case (Cons c cs')
    then have cne: "c \<noteq> []" using assms(1) stackOK_elem_nonempty by auto
    have cns: "CHR ''/'' \<notin> set c" using assms(2) Cons by (simp add: noSlash_def)
    have j: "strings_Join cs ''/'' \<noteq> [] \<and> hd (strings_Join cs ''/'') = hd c"
      using Join_hd[of cs "''/''"] Cons cne by simp
    have "hd c \<noteq> CHR ''/''" using cne cns by (cases c) auto
    with j have "\<not> isRooted (strings_Join cs ''/'')"
      by (cases "strings_Join cs ''/''") (auto simp: isRooted_def)
    then show ?thesis using False Cons by (simp add: renderPath_def)
  qed
qed

lemma Split_slash_Cons: "strings_Split (CHR ''/'' # x) ''/'' = [] # strings_Split x ''/''"
  by (simp add: Split_single_Cons del: strings_Split.simps(2))

lemma cleanStep_empty [simp]: "cleanStep r acc [] = acc"
  by (simp add: cleanStep_def)

lemma cleanElems_render:
  assumes "stackOK r cs" "noSlash cs"
  shows "cleanElems r (renderPath r cs) = cs"
    and "cs \<noteq> [] \<Longrightarrow> cleanElems r (renderPath r cs @ ''/'') = cs"
proof -
  have sj: "cs \<noteq> [] \<Longrightarrow> strings_Split (strings_Join cs ''/'') ''/'' = cs"
    using assms(2) Split_Join[of cs "CHR ''/''"] by (simp add: noSlash_def)
  have f: "foldl (cleanStep r) [] cs = cs" using assms(1) by (rule foldl_stackOK)
  show "cleanElems r (renderPath r cs) = cs"
  proof (cases cs)
    case Nil
    then show ?thesis
      by (cases r) (simp_all add: cleanElems_def renderPath_def Split_single_Cons cleanStep_def
          del: strings_Split.simps(2))
  next
    case (Cons c cs')
    then have ne: "cs \<noteq> []" by simp
    show ?thesis
      using sj[OF ne] f ne
      by (cases r) (simp_all add: cleanElems_def renderPath_def Split_slash_Cons
          del: strings_Split.simps(2))
  qed
  assume ne: "cs \<noteq> []"
  have sp: "\<And>x. strings_Split (x @ ''/'') ''/'' = strings_Split x ''/'' @ [[]]"
    using Split_append[of _ "CHR ''/''" "[]"] by simp
  show "cleanElems r (renderPath r cs @ ''/'') = cs"
  proof (cases r)
    case True
    have "strings_Split (CHR ''/'' # strings_Join cs ''/'' @ ''/'') ''/''
            = [] # cs @ [[]]"
      using sp[of "strings_Join cs ''/''"] sj[OF ne]
      by (simp add: Split_slash_Cons del: strings_Split.simps(2))
    then show ?thesis using True f by (simp add: cleanElems_def renderPath_def)
  next
    case False
    have "strings_Split (strings_Join cs ''/'' @ ''/'') ''/'' = cs @ [[]]"
      using sp[of "strings_Join cs ''/''"] sj[OF ne] by simp
    then show ?thesis using False f ne by (simp add: cleanElems_def renderPath_def)
  qed
qed

lemma Clean_render:
  assumes "stackOK r cs" "noSlash cs"
  shows "filepath_Clean (renderPath r cs) = renderPath r cs"
  using render_nonempty[OF assms(1)] isRooted_render[OF assms] cleanElems_render(1)[OF assms]
  by (simp add: filepath_Clean_def)

lemma cleanElems_noSlash: "noSlash (cleanElems r p)"
  unfolding noSlash_def using cleanElems_noslash by blast

lemma Clean_idem: "filepath_Clean (filepath_Clean p) = filepath_Clean p"
proof (cases "p = []")
  case True
  have "filepath_Clean ''.'' = ''.''" by code_simp
  then show ?thesis using True by (simp add: filepath_Clean_def)
next
  case False
  then show ?thesis
    using Clean_render[OF cleanElems_OK cleanElems_noSlash, of "isRooted p" p]
    by (simp add: filepath_Clean_def)
qed

lemma plainName_cleanStep: "plainName n \<Longrightarrow> cleanStep r acc n = acc @ [n]"
  by (simp add: plainName_def cleanStep_def)

lemma isRooted_append: "d \<noteq> [] \<Longrightarrow> isRooted (d @ x) = isRooted d"
  by (cases d) (simp_all add: isRooted_def)

lemma cleanElems_append_name:
  assumes "plainName n"
  shows "cleanElems r (d @ CHR ''/'' # n) = cleanElems r d @ [n]"
proof -
  have ns: "CHR ''/'' \<notin> set n" using assms by (simp add: plainName_def)
  have "strings_Split (d @ CHR ''/'' # n) ''/'' = strings_Split d ''/'' @ [n]"
    using Split_append[of d "CHR ''/''" n] Split_no_sep_string[OF ns] by simp
  then show ?thesis
    unfolding cleanElems_def by (simp add: plainName_cleanStep[OF assms])
qed

lemma cleanElems_Nil: "cleanElems r [] = []"
  by (simp add: cleanElems_def)

lemma cleanElems_name: "plainName n \<Longrightarrow> cleanElems r n = [n]"
proof -
  assume p: "plainName n"
  then have ns: "CHR ''/'' \<notin> set n" by (simp add: plainName_def)
  show ?thesis unfolding cleanElems_def Split_no_sep_string[OF ns]
    by (simp add: plainName_cleanStep[OF p])
qed

lemma plainName_not_rooted: "plainName n \<Longrightarrow> \<not> isRooted n"
  by (cases n) (auto simp: plainName_def isRooted_def)

lemma Join2_plain:
  assumes "plainName n"
  shows "filepath_Join [d, n] = renderPath (isRooted d) (cleanElems (isRooted d) d @ [n])"
proof (cases "d = []")
  case True
  have ne: "n \<noteq> []" using assms by (simp add: plainName_def)
  have "filepath_Join [d, n] = filepath_Clean n" using True ne by simp
  also have "\<dots> = renderPath False [n]"
    using ne plainName_not_rooted[OF assms] cleanElems_name[OF assms]
    by (simp add: filepath_Clean_def)
  finally show ?thesis using True by (simp add: isRooted_def cleanElems_Nil)
next
  case False
  have "filepath_Join [d, n] = filepath_Clean (d @ CHR ''/'' # n)" using False by simp
  then show ?thesis
    using False isRooted_append[OF False, of "CHR ''/'' # n"] cleanElems_append_name[OF assms]
    by (simp add: filepath_Clean_def)
qed

lemma renderPath_snoc:
  "renderPath r (cs @ [n]) =
     (if cs = [] then (if r then CHR ''/'' # n else n) else renderPath r cs @ CHR ''/'' # n)"
  by (simp add: renderPath_def Join_snoc)

lemma renderPath_single: "renderPath r [n] = (if r then CHR ''/'' # n else n)"
  by (simp add: renderPath_def)

lemma Base_suffix:
  assumes "plainName n" "pre = [] \<or> last pre = CHR ''/''"
  shows "filepath_Base (pre @ n) = n"
proof -
  have ne: "n \<noteq> []" and ns: "CHR ''/'' \<notin> set n" using assms(1) by (simp_all add: plainName_def)
  have "last (pre @ n) = last n" using ne by simp
  moreover have "last n \<in> set n" using ne by simp
  ultimately have "last (pre @ n) \<notin> set ''/''" using ns by auto
  then have t: "strings_TrimRight (pre @ n) ''/'' = pre @ n"
    using ne by (intro TrimRight_id) auto
  have tw: "takeWhile (\<lambda>c. c \<noteq> CHR ''/'') (rev (pre @ n)) = rev n"
  proof (cases "pre = []")
    case True
    then show ?thesis using ns by (auto simp: takeWhile_eq_all_conv)
  next
    case False
    then have "last pre = CHR ''/''" using assms(2) by simp
    then obtain q where "pre = q @ ''/''" using False by (metis append_butlast_last_id)
    then show ?thesis using ns by (simp add: takeWhile_append)
  qed
  show ?thesis unfolding filepath_Base_def Let_def t tw using ne by simp
qed

lemma Dir_suffix:
  assumes "CHR ''/'' \<notin> set n" "pre = [] \<or> last pre = CHR ''/''"
  shows "filepath_Dir (pre @ n) = filepath_Clean pre"
proof -
  have "dropWhile (\<lambda>c. c \<noteq> CHR ''/'') (rev (pre @ n)) = rev pre"
  proof (cases "pre = []")
    case True
    then show ?thesis using assms(1) by (auto simp: dropWhile_eq_Nil_conv)
  next
    case False
    then have "last pre = CHR ''/''" using assms(2) by simp
    then obtain q where "pre = q @ ''/''" using False by (metis append_butlast_last_id)
    then show ?thesis using assms(1) by (simp add: dropWhile_append)
  qed
  then show ?thesis by (simp add: filepath_Dir_def)
qed

lemma Base_Join: "plainName n \<Longrightarrow> filepath_Base (filepath_Join [d, n]) = n"
proof -
  assume p: "plainName n"
  let ?r = "isRooted d" and ?cs = "cleanElems (isRooted d) d"
  show ?thesis
  proof (cases "?cs = []")
    case True
    then show ?thesis
      using Base_suffix[OF p, of "[]"] Base_suffix[OF p, of "''/''"]
      by (simp add: Join2_plain[OF p] renderPath_snoc renderPath_single del: filepath_Join.simps)
  next
    case False
    then show ?thesis
      using Base_suffix[OF p, of "renderPath ?r ?cs @ ''/''"]
      by (simp add: Join2_plain[OF p] renderPath_snoc renderPath_single del: filepath_Join.simps)
  qed
qed

lemma Clean_root: "filepath_Clean ''/'' = ''/''"
  by code_simp

lemma Clean_nonempty_def:
  "d \<noteq> [] \<Longrightarrow> filepath_Clean d = renderPath (isRooted d) (cleanElems (isRooted d) d)"
  by (simp add: filepath_Clean_def)

lemma Dir_Join:
  assumes "plainName n" "d \<noteq> []"
  shows "filepath_Dir (filepath_Join [d, n]) = filepath_Clean d"
proof -
  let ?r = "isRooted d" and ?cs = "cleanElems (isRooted d) d"
  have ns: "CHR ''/'' \<notin> set n" using assms(1) by (simp add: plainName_def)
  have ok: "stackOK ?r ?cs" by (rule cleanElems_OK)
  have nsl: "noSlash ?cs" by (rule cleanElems_noSlash)
  show ?thesis
  proof (cases "?cs = []")
    case True
    show ?thesis
    proof (cases ?r)
      case True
      have "filepath_Join [d, n] = ''/'' @ n"
        using \<open>?cs = []\<close> True by (simp add: Join2_plain[OF assms(1)] renderPath_snoc renderPath_single del: filepath_Join.simps)
      then have "filepath_Dir (filepath_Join [d, n]) = filepath_Clean ''/''"
        using Dir_suffix[OF ns, of "''/''"] by simp
      then show ?thesis
        using \<open>?cs = []\<close> True assms(2) by (simp add: Clean_root Clean_nonempty_def renderPath_def)
    next
      case False
      have "filepath_Join [d, n] = [] @ n"
        using \<open>?cs = []\<close> False by (simp add: Join2_plain[OF assms(1)] renderPath_snoc renderPath_single del: filepath_Join.simps)
      then have "filepath_Dir (filepath_Join [d, n]) = filepath_Clean []"
        using Dir_suffix[OF ns, of "[]"] by simp
      then show ?thesis
        using \<open>?cs = []\<close> False assms(2)
        by (simp add: Clean_nonempty_def renderPath_def filepath_Clean_def)
    qed
  next
    case False
    let ?pre = "renderPath ?r ?cs @ ''/''"
    have j: "filepath_Join [d, n] = ?pre @ n"
      using False by (simp add: Join2_plain[OF assms(1)] renderPath_snoc renderPath_single del: filepath_Join.simps)
    have "filepath_Dir (?pre @ n) = filepath_Clean ?pre"
      by (rule Dir_suffix[OF ns]) simp
    moreover have "filepath_Clean ?pre = renderPath ?r ?cs"
    proof -
      have ne: "?pre \<noteq> []" by simp
      have rt: "isRooted ?pre = ?r"
        using isRooted_append[OF render_nonempty[OF ok], of "''/''"] isRooted_render[OF ok nsl]
        by simp
      show ?thesis
        unfolding Clean_nonempty_def[OF ne] rt
        using cleanElems_render(2)[OF ok nsl False] by simp
    qed
    ultimately show ?thesis using j assms(2) by (simp add: Clean_nonempty_def)
  qed
qed

lemma Join2_clean: "filepath_Join [d, n] \<noteq> [] \<Longrightarrow> filepath_Clean (filepath_Join [d, n]) = filepath_Join [d, n]"
  by (cases "d = []"; cases "n = []") (simp_all add: Clean_idem)

lemma Join2_plain_nonempty: "plainName n \<Longrightarrow> filepath_Join [d, n] \<noteq> []"
  by (auto simp add: Join2_plain renderPath_snoc renderPath_single plainName_def render_nonempty simp del: filepath_Join.simps)

lemma Base_noslash: "filepath_Base k = ''/'' \<or> CHR ''/'' \<notin> set (filepath_Base k)"
proof -
  have "CHR ''/'' \<notin> set (takeWhile (\<lambda>c. c \<noteq> CHR ''/'') xs)" for xs :: string
    by (metis (mono_tags, lifting) set_takeWhileD)
  then show ?thesis by (auto simp: filepath_Base_def Let_def)
qed

lemma Base_nonempty: "filepath_Base k \<noteq> []"
  by (simp add: filepath_Base_def Let_def)

lemma isEntryOf_plain: "isEntryOf d k \<Longrightarrow> plainName (filepath_Base k)"
  using Base_noslash[of k] Base_nonempty[of k] by (auto simp: isEntryOf_def plainName_def Let_def)

subsection \<open>Newline normalization\<close>

lemma normalize_shape:
  "\<exists>t. normalizeNewlines s = t @ [LF] \<and> (t = [] \<or> last t \<noteq> LF)"
  using TrimRight_last[of "strings_ReplaceAll s [CR, LF] [LF]" "[LF]"]
  by (auto simp: normalizeNewlines_def)

text \<open>
  Claim C3, as stated, fails: the text made of one carriage return is normalized to a
  carriage return followed by a line feed, so the result contains a CRLF sequence.
\<close>

theorem normalizeNewlines_lone_CR_counterexample:
  "strings_Contains (normalizeNewlines [CR]) [CR, LF]"
  by code_simp

lemma ReplaceAll_Join_Split:
  "old \<noteq> [] \<Longrightarrow> strings_ReplaceAll s old new = strings_Join (strings_Split s old) new"
proof (induction s old new rule: strings_ReplaceAll.induct)
  case (1 old new)
  then show ?case by simp
next
  case (2 c cs old new)
  show ?case
  proof (cases "strings_HasPrefix (c # cs) old")
    case True
    have ne: "strings_Split (drop (length old) (c # cs)) old \<noteq> []" by (rule Split_nonempty)
    show ?thesis using True 2 ne by (simp add: Join_Cons)
  next
    case False
    have ne: "strings_Split cs old \<noteq> []" by (rule Split_nonempty)
    then obtain l ls where sp: "strings_Split cs old = l # ls" by (cases "strings_Split cs old") auto
    have "strings_Join ((c # l) # ls) new = c # strings_Join (l # ls) new"
      by (cases ls) auto
    then show ?thesis using False 2 sp by simp
  qed
qed

lemma stripTrailing_Nil_iff: "stripTrailingNewlines s = [] \<longleftrightarrow> (\<forall>c\<in>set s. c = LF)"
  by (induction s) auto

lemma TrimRight_Cons:
  "strings_TrimRight (c # cs) cset =
     (if c \<in> set cset \<and> strings_TrimRight cs cset = [] then [] else c # strings_TrimRight cs cset)"
proof -
  have a: "strings_TrimRight cs cset = [] \<longleftrightarrow> (\<forall>x\<in>set cs. x \<in> set cset)"
    by (auto simp: strings_TrimRight_def dropWhile_eq_Nil_conv)
  show ?thesis
  proof (cases "\<forall>x\<in>set cs. x \<in> set cset")
    case True
    then have "dropWhile (\<lambda>c. c \<in> set cset) (rev cs) = []" by (simp add: dropWhile_eq_Nil_conv)
    then show ?thesis using a True by (simp add: strings_TrimRight_def dropWhile_append)
  next
    case False
    then have "dropWhile (\<lambda>c. c \<in> set cset) (rev cs) \<noteq> []" by (simp add: dropWhile_eq_Nil_conv)
    then show ?thesis using a False by (simp add: strings_TrimRight_def dropWhile_append)
  qed
qed

lemma TrimRight_stripTrailing: "strings_TrimRight s [LF] = stripTrailingNewlines s"
  by (induction s) (simp_all add: TrimRight_Cons, simp add: strings_TrimRight_def)

lemma normalize_refines: "normalizeNewlines s = stripTrailingNewlines (crlfToLF s) @ [LF]"
  by (simp add: normalizeNewlines_def crlfToLF_def TrimRight_stripTrailing ReplaceAll_Join_Split)

lemma hd_stripTrailing: "hd (stripTrailingNewlines cs @ [LF]) = hd (cs @ [LF])"
  by (cases cs) auto

lemma Contains_CRLF_Cons:
  "strings_Contains (c # cs) [CR, LF] \<longleftrightarrow> (c = CR \<and> cs \<noteq> [] \<and> hd cs = LF) \<or> strings_Contains cs [CR, LF]"
  by (cases cs) (auto simp: HasPrefix_Cons)

lemma Contains_CRLF_single: "\<not> strings_Contains [c] [CR, LF]"
  by (simp add: HasPrefix_Cons)

lemma Contains_strip:
  "strings_Contains (stripTrailingNewlines r @ [LF]) [CR, LF] \<longleftrightarrow> strings_Contains (r @ [LF]) [CR, LF]"
proof (induction r)
  case Nil
  then show ?case by simp
next
  case (Cons c cs)
  show ?case
  proof (cases "c = LF \<and> stripTrailingNewlines cs = []")
    case True
    then have "strings_Contains (cs @ [LF]) [CR, LF] = False"
      using Cons by (simp add: HasPrefix_Cons)
    then show ?thesis using True
      by (simp add: Contains_CRLF_Cons HasPrefix_Cons del: strings_Contains.simps(2))
  next
    case False
    then have "stripTrailingNewlines (c # cs) @ [LF] = c # (stripTrailingNewlines cs @ [LF])"
      by auto
    then show ?thesis
      using Cons hd_stripTrailing[of cs]
      by (simp add: Contains_CRLF_Cons del: strings_Contains.simps(2))
  qed
qed

lemma R_Nil: "strings_ReplaceAll [] [CR, LF] [LF] = []"
  by simp

lemma R_match: "strings_ReplaceAll (CR # LF # t) [CR, LF] [LF] = LF # strings_ReplaceAll t [CR, LF] [LF]"
  by (simp add: HasPrefix_Cons)

lemma R_other:
  "\<not> (c = CR \<and> t \<noteq> [] \<and> hd t = LF) \<Longrightarrow>
   strings_ReplaceAll (c # t) [CR, LF] [LF] = c # strings_ReplaceAll t [CR, LF] [LF]"
  by (cases t) (auto simp: HasPrefix_Cons)

lemma hd_R:
  "hd (strings_ReplaceAll t [CR, LF] [LF] @ [LF]) = LF \<longleftrightarrow>
     t = [] \<or> hd t = LF \<or> (\<exists>u. t = CR # LF # u)"
proof (cases t)
  case Nil
  then show ?thesis by simp
next
  case (Cons d u)
  show ?thesis
  proof (cases "d = CR \<and> u \<noteq> [] \<and> hd u = LF")
    case True
    then obtain v where "u = LF # v" by (cases u) auto
    then show ?thesis using Cons True by (simp add: HasPrefix_Cons)
  next
    case False
    then have "strings_ReplaceAll t [CR, LF] [LF] = d # strings_ReplaceAll u [CR, LF] [LF]"
      using Cons R_other by simp
    then show ?thesis using Cons False by auto
  qed
qed

lemma Contains_CCL_Cons:
  "strings_Contains (c # cs) [CR, CR, LF] \<longleftrightarrow>
     (c = CR \<and> (\<exists>u. cs = CR # LF # u)) \<or> strings_Contains cs [CR, CR, LF]"
proof -
  have "strings_HasPrefix (c # cs) [CR, CR, LF] \<longleftrightarrow> (c = CR \<and> (\<exists>u. cs = CR # LF # u))"
  proof (cases cs)
    case Nil
    then show ?thesis by (simp add: HasPrefix_Cons)
  next
    case (Cons d u)
    then show ?thesis by (cases u) (auto simp: HasPrefix_Cons)
  qed
  then show ?thesis by simp
qed

lemma leavesCRLF_Nil: "\<not> leavesCRLF []"
  by (simp add: leavesCRLF_def)

lemma leavesCRLF_Cons:
  "leavesCRLF (c # cs) \<longleftrightarrow>
     (c = CR \<and> (cs = [] \<or> (\<exists>u. cs = CR # LF # u))) \<or> leavesCRLF cs"
  unfolding leavesCRLF_def Contains_CCL_Cons by (cases cs) auto

lemma Contains_R:
  "strings_Contains (strings_ReplaceAll s [CR, LF] [LF] @ [LF]) [CR, LF] \<longleftrightarrow> leavesCRLF s"
proof (induction "length s" arbitrary: s rule: less_induct)
  case less
  show ?case
  proof (cases s)
    case Nil
    then show ?thesis by (simp add: leavesCRLF_Nil HasPrefix_Cons)
  next
    case (Cons c t)
    show ?thesis
    proof (cases "c = CR \<and> t \<noteq> [] \<and> hd t = LF")
      case True
      then obtain v where t: "t = LF # v" by (cases t) auto
      have ih: "strings_Contains (strings_ReplaceAll v [CR, LF] [LF] @ [LF]) [CR, LF] \<longleftrightarrow> leavesCRLF v"
        using less[of v] Cons t by simp
      have l: "leavesCRLF s \<longleftrightarrow> leavesCRLF v"
        unfolding Cons t using True by (simp add: leavesCRLF_Cons)
      have "strings_ReplaceAll s [CR, LF] [LF] @ [LF] = LF # (strings_ReplaceAll v [CR, LF] [LF] @ [LF])"
        unfolding Cons t using True by (simp add: HasPrefix_Cons)
      then show ?thesis using ih l
        by (simp add: Contains_CRLF_Cons del: strings_Contains.simps(2))
    next
      case False
      have ih: "strings_Contains (strings_ReplaceAll t [CR, LF] [LF] @ [LF]) [CR, LF] \<longleftrightarrow> leavesCRLF t"
        using less[of t] Cons by simp
      have r: "strings_ReplaceAll s [CR, LF] [LF] @ [LF] = c # (strings_ReplaceAll t [CR, LF] [LF] @ [LF])"
        unfolding Cons using R_other[OF False] by simp
      have "strings_Contains (strings_ReplaceAll s [CR, LF] [LF] @ [LF]) [CR, LF] \<longleftrightarrow>
              (c = CR \<and> hd (strings_ReplaceAll t [CR, LF] [LF] @ [LF]) = LF) \<or> leavesCRLF t"
        unfolding r using ih by (simp add: Contains_CRLF_Cons del: strings_Contains.simps(2))
      also have "\<dots> \<longleftrightarrow> (c = CR \<and> (t = [] \<or> (\<exists>u. t = CR # LF # u))) \<or> leavesCRLF t"
        unfolding hd_R using False by auto
      also have "\<dots> \<longleftrightarrow> leavesCRLF s" unfolding Cons by (simp add: leavesCRLF_Cons)
      finally show ?thesis .
    qed
  qed
qed

lemma normalize_CRLF_iff:
  "strings_Contains (normalizeNewlines s) [CR, LF] \<longleftrightarrow> leavesCRLF s"
  unfolding normalizeNewlines_def TrimRight_stripTrailing Contains_strip Contains_R ..

text \<open>
  Claim C3, amended: for every input the function returns the input with every CRLF
  sequence converted to LF, the trailing newlines stripped and one newline appended; so
  the result ends with exactly one newline (it is a text that does not end with a
  newline, followed by one newline). The result contains a CRLF sequence exactly when
  the input ends with a carriage return or has a carriage return directly before a CRLF
  sequence; for every other input it contains none.
\<close>

theorem normalizeNewlines_converts_strips_appends:
  "normalizeNewlines s = stripTrailingNewlines (crlfToLF s) @ [LF] \<and>
   (\<exists>t. normalizeNewlines s = t @ [LF] \<and> (t = [] \<or> last t \<noteq> LF)) \<and>
   (strings_Contains (normalizeNewlines s) [CR, LF] \<longleftrightarrow> leavesCRLF s)"
  using normalize_refines normalize_shape normalize_CRLF_iff by blast

theorem normalizeNewlines_converts_strips_appends_witness:
  "\<not> leavesCRLF (''a'' @ [CR] @ ''b'' @ [CR, LF, CR, LF] @ ''c'' @ [LF, LF]) \<and>
   normalizeNewlines (''a'' @ [CR] @ ''b'' @ [CR, LF, CR, LF] @ ''c'' @ [LF, LF])
     = ''a'' @ [CR] @ ''b'' @ [LF, LF] @ ''c'' @ [LF] \<and>
   \<not> strings_Contains
       (normalizeNewlines (''a'' @ [CR] @ ''b'' @ [CR, LF, CR, LF] @ ''c'' @ [LF, LF])) [CR, LF]"
proof -
  have h: "\<not> leavesCRLF (''a'' @ [CR] @ ''b'' @ [CR, LF, CR, LF] @ ''c'' @ [LF, LF])"
    by code_simp
  have v: "normalizeNewlines (''a'' @ [CR] @ ''b'' @ [CR, LF, CR, LF] @ ''c'' @ [LF, LF])
     = ''a'' @ [CR] @ ''b'' @ [LF, LF] @ ''c'' @ [LF]"
    by code_simp
  show ?thesis
    using h v
      normalizeNewlines_converts_strips_appends
        [of "''a'' @ [CR] @ ''b'' @ [CR, LF, CR, LF] @ ''c'' @ [LF, LF]"]
    by blast
qed

subsection \<open>Indentation\<close>

lemma stripIndent_indent:
  assumes "LF \<notin> set ind"
  shows "stripIndent (indentForYAMLLiteralBlock s ind) ind = Some s"
proof -
  let ?f = "\<lambda>line. if line = [] then ind else ind @ line"
  let ?ls = "strings_Split s [LF]"
  have ne: "map ?f ?ls \<noteq> []" using Split_nonempty by simp
  have nosep: "\<forall>l\<in>set (map ?f ?ls). LF \<notin> set l"
    using assms Split_no_sep[of _ s LF] by auto
  have sp: "strings_Split (strings_Join (map ?f ?ls) [LF]) [LF] = map ?f ?ls"
    by (rule Split_Join[OF ne nosep])
  have pre: "list_all (\<lambda>line. strings_HasPrefix line ind) (map ?f ?ls)"
    by (auto simp: list_all_iff strings_HasPrefix_def)
  have "map (drop (length ind)) (map ?f ?ls) = ?ls"
    unfolding map_map by (rule map_idI) simp
  then show ?thesis
    unfolding stripIndent_def indentForYAMLLiteralBlock_def sp Let_def
    using pre by (simp add: Join_Split)
qed

text \<open>
  Claim C4: for every input text, normalizing the newlines and indenting by four
  spaces gives a text in which every line begins with the four spaces, and stripping
  exactly these four spaces from every line gives back the newline-normalized text.
\<close>

theorem indent_roundtrip:
  "stripIndent (indentForYAMLLiteralBlock (normalizeNewlines s) ''    '') ''    ''
     = Some (normalizeNewlines s)"
  by (rule stripIndent_indent) simp

subsection \<open>Name derivation\<close>

lemma derive_ascii:
  "list_all isASCII (rawIdentifier f) \<Longrightarrow>
   deriveSchemaNameFromFilename lu f = map safeChar (rawIdentifier f)"
  by (auto simp: deriveSchemaNameFromFilename_def rawIdentifier_def strings_ToLower_def
      ReplaceAll_char safeChar_def Let_def)

lemma identifierChar_ascii: "identifierChar c \<Longrightarrow> isASCII c"
  by (auto simp: identifierChar_def isAlnum_def isASCII_def)

lemma of_char_lower:
  "(65::nat) \<le> of_char c \<Longrightarrow> of_char c \<le> (90::nat) \<Longrightarrow>
   (of_char (lowerASCII c) :: nat) = of_char c + 32"
  by (simp add: lowerASCII_def)

lemma safeChar_nameChar: "identifierChar c \<Longrightarrow> nameChar (safeChar c)"
  unfolding identifierChar_def isAlnum_def nameChar_def safeChar_def
  by (cases "(65::nat) \<le> of_char c \<and> of_char c \<le> (90::nat)")
     (auto simp: of_char_lower, auto simp: lowerASCII_def)

lemma nameChar_facts:
  assumes "nameChar c"
  shows "c \<noteq> CHR ''/''" "c \<noteq> CHR ''.''" "c \<noteq> CHR ''_''" "isASCII c" "lowerASCII c = c"
  using assms by (auto simp: nameChar_def isASCII_def lowerASCII_def)

lemma Base_plain:
  assumes "s \<noteq> []" "CHR ''/'' \<notin> set s"
  shows "filepath_Base s = s"
proof -
  have "last s \<noteq> CHR ''/''" using assms by (metis last_in_set)
  then have t: "strings_TrimRight s ''/'' = s" using assms(1) by (simp add: TrimRight_id)
  have tw: "takeWhile (\<lambda>c. c \<noteq> CHR ''/'') (rev s) = rev s"
    using assms(2) by (auto simp: takeWhile_eq_all_conv)
  show ?thesis unfolding filepath_Base_def Let_def t tw using assms(1) by simp
qed

lemma derive_name_fixed:
  assumes "d \<noteq> []" "list_all nameChar d"
  shows "deriveSchemaNameFromFilename lu d = d"
proof -
  have nm: "\<And>c. c \<in> set d \<Longrightarrow> nameChar c" using assms(2) by (simp add: list_all_iff)
  have ns: "CHR ''/'' \<notin> set d" using nm nameChar_facts(1) by blast
  have nd: "CHR ''.'' \<notin> set d" using nm nameChar_facts(2) by blast
  have nu: "CHR ''_'' \<notin> set d" using nm nameChar_facts(3) by blast
  have asc: "list_all isASCII d" unfolding list_all_iff using nm nameChar_facts(4) by blast
  have low: "map lowerASCII d = d" by (rule map_idI) (use nm nameChar_facts(5) in blast)
  have b: "filepath_Base d = d" using assms(1) ns by (rule Base_plain)
  have t: "strings_TrimSuffix d ''.pubsub.proto'' = d"
    by (rule TrimSuffix_id[of "CHR ''.''"]) (use nd in auto)
  have l: "strings_ToLower lu d = d" by (simp add: strings_ToLower_def asc low)
  have r1: "strings_ReplaceAll d ''.'' ''-'' = d"
    unfolding ReplaceAll_char using nd by (auto intro: map_idI)
  have r2: "strings_ReplaceAll d ''_'' ''-'' = d"
    unfolding ReplaceAll_char using nu by (auto intro: map_idI)
  show ?thesis
    unfolding deriveSchemaNameFromFilename_def Let_def b t l r1 r2 ..
qed

text \<open>
  Claim C2, as stated, fails for the file name \<^verbatim>\<open>.pubsub.proto\<close>, which the default glob
  matches: its raw identifier is empty (so made of identifier characters only), its
  derived name is the empty string, and the derived name of the empty string is
  \<^verbatim>\<open>-\<close>, because \<^verbatim>\<open>filepath.Base\<close> of the empty path is \<^verbatim>\<open>.\<close>.
\<close>

theorem derive_empty_identifier_counterexample:
  "list_all identifierChar (rawIdentifier ''.pubsub.proto'') \<and>
   deriveSchemaNameFromFilename (\<lambda>s. s) (deriveSchemaNameFromFilename (\<lambda>s. s) ''.pubsub.proto'')
     \<noteq> deriveSchemaNameFromFilename (\<lambda>s. s) ''.pubsub.proto''"
proof -
  have r: "rawIdentifier ''.pubsub.proto'' = []" by code_simp
  have a: "deriveSchemaNameFromFilename (\<lambda>s. s) ''.pubsub.proto'' = []" by code_simp
  have b: "deriveSchemaNameFromFilename (\<lambda>s. s) [] = ''-''" by code_simp
  show ?thesis unfolding a b r by simp
qed

text \<open>
  Claim C2, amended: for every file name whose raw identifier is not empty and is made
  of ASCII letters, digits, \<^verbatim>\<open>.\<close> and \<^verbatim>\<open>_\<close>, deriving the name of the derived name gives
  the derived name again; the derived name depends on the file name only (not on the
  Unicode case mapping), and it is made of lower-case letters, digits and hyphens.
\<close>

theorem derive_idempotent:
  assumes "rawIdentifier filename \<noteq> []"
    and "list_all identifierChar (rawIdentifier filename)"
  shows "deriveSchemaNameFromFilename lu (deriveSchemaNameFromFilename lu filename)
           = deriveSchemaNameFromFilename lu filename
         \<and> deriveSchemaNameFromFilename lu' filename = deriveSchemaNameFromFilename lu filename
         \<and> list_all nameChar (deriveSchemaNameFromFilename lu filename)"
proof -
  have asc: "list_all isASCII (rawIdentifier filename)"
    using assms(2) identifierChar_ascii unfolding list_all_iff by blast
  have d: "\<And>l. deriveSchemaNameFromFilename l filename = map safeChar (rawIdentifier filename)"
    using asc by (rule derive_ascii)
  have nc: "list_all nameChar (map safeChar (rawIdentifier filename))"
    using assms(2) safeChar_nameChar unfolding list_all_iff by auto
  have ne: "map safeChar (rawIdentifier filename) \<noteq> []" using assms(1) by simp
  have fx: "deriveSchemaNameFromFilename lu (map safeChar (rawIdentifier filename))
              = map safeChar (rawIdentifier filename)"
    using ne nc by (rule derive_name_fixed)
  show ?thesis unfolding d using fx nc by blast
qed

theorem derive_idempotent_witness:
  "rawIdentifier ''gen/pubsub/coreapp.test.v1.Test_Event.pubsub.proto'' \<noteq> [] \<and>
   list_all identifierChar (rawIdentifier ''gen/pubsub/coreapp.test.v1.Test_Event.pubsub.proto'') \<and>
   deriveSchemaNameFromFilename (\<lambda>s. s) ''gen/pubsub/coreapp.test.v1.Test_Event.pubsub.proto''
     = ''coreapp-test-v1-test-event'' \<and>
   deriveSchemaNameFromFilename (\<lambda>s. s) ''coreapp-test-v1-test-event''
     = ''coreapp-test-v1-test-event''"
proof -
  have r: "rawIdentifier ''gen/pubsub/coreapp.test.v1.Test_Event.pubsub.proto''
             = ''coreapp.test.v1.Test_Event''" by code_simp
  have h1: "rawIdentifier ''gen/pubsub/coreapp.test.v1.Test_Event.pubsub.proto'' \<noteq> []"
    unfolding r by simp
  have h2: "list_all identifierChar (rawIdentifier ''gen/pubsub/coreapp.test.v1.Test_Event.pubsub.proto'')"
    unfolding r by code_simp
  have v: "deriveSchemaNameFromFilename (\<lambda>s. s) ''gen/pubsub/coreapp.test.v1.Test_Event.pubsub.proto''
             = ''coreapp-test-v1-test-event''" by code_simp
  show ?thesis
    using h1 h2 v derive_idempotent[OF h1 h2, of "\<lambda>s. s" "\<lambda>s. s"] by simp
qed

subsection \<open>Path resolution\<close>

lemma walk_foldl: "walk fs r cur es = Inr cur' \<Longrightarrow> cur' = foldl (cleanStep r) cur es"
  by (induction es arbitrary: cur) (auto split: option.splits node.splits)

lemma walk_append:
  "walk fs r cur (es @ es') =
     (case walk fs r cur es of Inl e \<Rightarrow> Inl e | Inr c \<Rightarrow> walk fs r c es')"
  by (induction es arbitrary: cur) (auto split: option.splits node.splits)

lemma walk_mono:
  "walk fs r cur es = Inr cur' \<Longrightarrow> dirsKept fs fs' \<Longrightarrow> walk fs' r cur es = Inr cur'"
proof (induction es arbitrary: cur)
  case Nil
  then show ?case by simp
next
  case (Cons e es)
  from Cons.prems(1) have d: "fmlookup fs (renderPath r cur) = Some Directory"
    by (auto split: option.splits node.splits)
  then have d': "fmlookup fs' (renderPath r cur) = Some Directory"
    using Cons.prems(2) by (simp add: dirsKept_def)
  from Cons.prems(1) d have "walk fs r (cleanStep r cur e) es = Inr cur'" by simp
  from Cons.IH[OF this Cons.prems(2)] d' show ?case by simp
qed

lemma walk_empties:
  "fmlookup fs (renderPath r cur) = Some Directory \<Longrightarrow> walk fs r cur (replicate m []) = Inr cur"
  by (induction m) simp_all

lemma trimEmpty_decomp: "\<exists>m. es = trimEmpty es @ replicate m []"
proof -
  have "\<exists>m. xs = replicate m [] @ dropWhile (\<lambda>e. e = []) xs" for xs :: "string list"
  proof (induction xs)
    case Nil
    then show ?case by simp
  next
    case (Cons x xs)
    then obtain m where m: "xs = replicate m [] @ dropWhile (\<lambda>e. e = []) xs" by blast
    show ?case
    proof (cases "x = []")
      case True
      have "x # xs = replicate (Suc m) [] @ dropWhile (\<lambda>e. e = []) (x # xs)"
        using True m by simp
      then show ?thesis by blast
    next
      case False
      then have "x # xs = replicate 0 [] @ dropWhile (\<lambda>e. e = []) (x # xs)" by simp
      then show ?thesis by blast
    qed
  qed
  then obtain m where "rev es = replicate m [] @ dropWhile (\<lambda>e. e = []) (rev es)" by blast
  then have "rev (rev es) = rev (replicate m [] @ dropWhile (\<lambda>e. e = []) (rev es))" by simp
  then have "es = trimEmpty es @ replicate m []" by (simp add: trimEmpty_def)
  then show ?thesis by blast
qed

lemma foldl_empties: "foldl (cleanStep r) cur (replicate m []) = cur"
  by (induction m) simp_all

lemma foldl_trimEmpty: "foldl (cleanStep r) cur (trimEmpty es) = foldl (cleanStep r) cur es"
proof -
  obtain m where m: "es = trimEmpty es @ replicate m []" using trimEmpty_decomp by blast
  have "foldl (cleanStep r) cur es = foldl (cleanStep r) cur (trimEmpty es @ replicate m [])"
    using m by simp
  then show ?thesis by (simp add: foldl_empties)
qed

lemma resolve_Clean: "resolve fs p = Inr k \<Longrightarrow> p \<noteq> [] \<and> k = filepath_Clean p"
  by (auto simp: resolve_def filepath_Clean_def cleanElems_def dest: walk_foldl
      split: if_splits sum.splits)

lemma resolveNew_Clean: "resolveNew fs p = Inr k \<Longrightarrow> p \<noteq> [] \<and> k = filepath_Clean p"
  by (auto simp: resolveNew_def filepath_Clean_def cleanElems_def foldl_trimEmpty dest: walk_foldl
      split: if_splits sum.splits)

lemma resolve_mono: "resolve fs p = Inr k \<Longrightarrow> dirsKept fs fs' \<Longrightarrow> resolve fs' p = Inr k"
  by (auto simp: resolve_def dest: walk_mono split: if_splits sum.splits)

lemma resolveNew_mono: "resolveNew fs p = Inr k \<Longrightarrow> dirsKept fs fs' \<Longrightarrow> resolveNew fs' p = Inr k"
  by (auto simp: resolveNew_def dest: walk_mono split: if_splits sum.splits)

lemma dirsKept_refl: "dirsKept fs fs"
  by (simp add: dirsKept_def)

lemma dirsKept_trans: "dirsKept a b \<Longrightarrow> dirsKept b c \<Longrightarrow> dirsKept a c"
  by (simp add: dirsKept_def)

lemma dirExt_dirsKept: "dirExt fs fs' \<Longrightarrow> dirsKept fs fs'"
  unfolding dirExt_def dirsKept_def by (metis option.distinct(1))

lemma os_Stat_lookup:
  "os_Stat fs p = Inr n \<Longrightarrow>
     p \<noteq> [] \<and> resolve fs p = Inr (filepath_Clean p) \<and> fmlookup fs (filepath_Clean p) = Some n"
  by (auto simp: os_Stat_def dest: resolve_Clean split: sum.splits option.splits)

lemma os_Stat_iff:
  "os_Stat fs p = Inr n \<longleftrightarrow>
     resolve fs p = Inr (filepath_Clean p) \<and> fmlookup fs (filepath_Clean p) = Some n"
  by (auto simp: os_Stat_def dest: resolve_Clean split: sum.splits option.splits)

lemma os_ReadFile_lookup:
  "os_ReadFile fs p = Inr c \<Longrightarrow> p \<noteq> [] \<and> fmlookup fs (filepath_Clean p) = Some (Regular c)"
  by (auto simp: os_ReadFile_def dest: os_Stat_lookup split: sum.splits node.splits)

lemma os_ReadFile_iff:
  "os_ReadFile fs p = Inr c \<longleftrightarrow>
     resolve fs p = Inr (filepath_Clean p) \<and> fmlookup fs (filepath_Clean p) = Some (Regular c)"
proof
  assume a: "os_ReadFile fs p = Inr c"
  then have "os_Stat fs p = Inr (Regular c)"
    by (auto simp: os_ReadFile_def split: sum.splits node.splits)
  then show "resolve fs p = Inr (filepath_Clean p) \<and> fmlookup fs (filepath_Clean p) = Some (Regular c)"
    by (simp add: os_Stat_iff)
next
  assume "resolve fs p = Inr (filepath_Clean p) \<and> fmlookup fs (filepath_Clean p) = Some (Regular c)"
  then have "os_Stat fs p = Inr (Regular c)" by (simp add: os_Stat_iff)
  then show "os_ReadFile fs p = Inr c" by (simp add: os_ReadFile_def)
qed

lemma cleanStep_cases:
  "cleanStep r cur e = cur \<or> (cur \<noteq> [] \<and> cleanStep r cur e = butlast cur) \<or>
   (\<exists>x. cleanStep r cur e = cur @ [x])"
  by (auto simp: cleanStep_def)

lemma walk_dirsBelow:
  "walk fs r cur es = Inr cur' \<Longrightarrow>
   \<forall>k<length cur. fmlookup fs (renderPath r (take k cur)) = Some Directory \<Longrightarrow>
   \<forall>k<length cur'. fmlookup fs (renderPath r (take k cur')) = Some Directory"
proof (induction es arbitrary: cur)
  case Nil
  then show ?case by simp
next
  case (Cons e es)
  from Cons.prems(1) have d: "fmlookup fs (renderPath r cur) = Some Directory"
    by (auto split: option.splits node.splits)
  from Cons.prems(1) d have w: "walk fs r (cleanStep r cur e) es = Inr cur'" by simp
  have all: "\<And>k. k \<le> length cur \<Longrightarrow> fmlookup fs (renderPath r (take k cur)) = Some Directory"
    using Cons.prems(2) d by (metis le_neq_implies_less order_refl take_all)
  have "\<forall>k<length (cleanStep r cur e).
          fmlookup fs (renderPath r (take k (cleanStep r cur e))) = Some Directory"
  proof (intro allI impI)
    fix k assume k: "k < length (cleanStep r cur e)"
    from cleanStep_cases[of r cur e]
    consider (same) "cleanStep r cur e = cur"
      | (pop) "cur \<noteq> []" "cleanStep r cur e = butlast cur"
      | (push) x where "cleanStep r cur e = cur @ [x]" by blast
    then show "fmlookup fs (renderPath r (take k (cleanStep r cur e))) = Some Directory"
    proof cases
      case same
      then show ?thesis using k all[of k] by simp
    next
      case pop
      then have "take k (butlast cur) = take k cur" using k by (simp add: take_butlast)
      then show ?thesis using pop k all[of k] by simp
    next
      case push
      then have "take k (cur @ [x]) = take k cur" using k by simp
      then show ?thesis using push k all[of k] by simp
    qed
  qed
  from Cons.IH[OF w this] show ?case .
qed

lemma os_Stat_dirsAlong:
  assumes "os_Stat fs d = Inr Directory"
  shows "d \<noteq> [] \<and> dirsAlong fs (isRooted d) (cleanElems (isRooted d) d)"
proof -
  from os_Stat_lookup[OF assms] have ne: "d \<noteq> []"
    and rs: "resolve fs d = Inr (filepath_Clean d)"
    and lk: "fmlookup fs (filepath_Clean d) = Some Directory" by simp_all
  let ?r = "isRooted d"
  from rs ne obtain cur where w: "walk fs ?r [] (strings_Split d ''/'') = Inr cur"
    by (auto simp: resolve_def split: sum.splits)
  have cur: "cur = cleanElems ?r d" using walk_foldl[OF w] by (simp add: cleanElems_def)
  have below: "\<forall>k<length cur. fmlookup fs (renderPath ?r (take k cur)) = Some Directory"
    using walk_dirsBelow[OF w] by simp
  have top: "fmlookup fs (renderPath ?r cur) = Some Directory"
    using lk ne cur by (simp add: filepath_Clean_def)
  have "dirsAlong fs ?r cur"
    unfolding dirsAlong_def using below top by (metis le_neq_implies_less order_refl take_all)
  then show ?thesis using ne cur by simp
qed

lemma dirsAlong_mono: "dirsAlong fs r cur \<Longrightarrow> dirsKept fs fs' \<Longrightarrow> dirsAlong fs' r cur"
  by (simp add: dirsAlong_def dirsKept_def)

lemma stackOK_prefix: "stackOK r (xs @ ys) \<Longrightarrow> stackOK r xs"
proof -
  assume "stackOK r (xs @ ys)"
  then obtain k names where
    cs: "xs @ ys = replicate k ''..'' @ names" and rk: "r \<longrightarrow> k = 0"
    and nm: "\<forall>c\<in>set names. c \<noteq> [] \<and> c \<noteq> ''.'' \<and> c \<noteq> ''..''"
    unfolding stackOK_def by blast
  have "xs = take (length xs) (xs @ ys)" by simp
  also have "\<dots> = take (length xs) (replicate k ''..'' @ names)" using cs by simp
  also have "\<dots> = replicate (min (length xs) k) ''..'' @ take (length xs - k) names"
    by simp
  finally have x: "xs = replicate (min (length xs) k) ''..'' @ take (length xs - k) names" .
  have n': "\<forall>c\<in>set (take (length xs - k) names). c \<noteq> [] \<and> c \<noteq> ''.'' \<and> c \<noteq> ''..''"
    using nm by (meson in_set_takeD)
  have "r \<longrightarrow> min (length xs) k = 0" using rk by simp
  with x n' show "stackOK r xs" unfolding stackOK_def by blast
qed

lemma stackOK_snoc_step: "stackOK r (cur @ [e]) \<Longrightarrow> cleanStep r cur e = cur @ [e]"
proof -
  assume a: "stackOK r (cur @ [e])"
  have "foldl (cleanStep r) [] (cur @ [e]) = cur @ [e]" using a by (rule foldl_stackOK)
  moreover have "foldl (cleanStep r) [] cur = cur"
    using stackOK_prefix[OF a] by (rule foldl_stackOK)
  ultimately show ?thesis by simp
qed

lemma walk_stack:
  "stackOK r (cur @ es) \<Longrightarrow>
   \<forall>k<length es. fmlookup fs (renderPath r (cur @ take k es)) = Some Directory \<Longrightarrow>
   walk fs r cur es = Inr (cur @ es)"
proof (induction es arbitrary: cur)
  case Nil
  then show ?case by simp
next
  case (Cons e es)
  have d: "fmlookup fs (renderPath r cur) = Some Directory" using Cons.prems(2) by force
  have "stackOK r ((cur @ [e]) @ es)" using Cons.prems(1) by simp
  then have st: "cleanStep r cur e = cur @ [e]" using stackOK_prefix stackOK_snoc_step by blast
  have "\<forall>k<length es. fmlookup fs (renderPath r ((cur @ [e]) @ take k es)) = Some Directory"
  proof (intro allI impI)
    fix k assume "k < length es"
    then have "Suc k < length (e # es)" by simp
    then have "fmlookup fs (renderPath r (cur @ take (Suc k) (e # es))) = Some Directory"
      using Cons.prems(2) by blast
    then show "fmlookup fs (renderPath r ((cur @ [e]) @ take k es)) = Some Directory" by simp
  qed
  from Cons.IH[of "cur @ [e]", OF _ this] Cons.prems(1)
  have "walk fs r (cur @ [e]) es = Inr ((cur @ [e]) @ es)" by simp
  then show ?case using d st by simp
qed

lemma Split_render:
  assumes "stackOK r cs" "noSlash cs" "cs \<noteq> []"
  shows "strings_Split (renderPath r cs) ''/'' = (if r then [[]] else []) @ cs"
proof -
  have sj: "strings_Split (strings_Join cs ''/'') ''/'' = cs"
    using assms(2,3) Split_Join[of cs "CHR ''/''"] by (simp add: noSlash_def)
  show ?thesis
    using sj assms(3)
    by (cases r) (simp_all add: renderPath_def Split_slash_Cons del: strings_Split.simps(2))
qed

lemma stackOK_snoc_plain: "stackOK r cs \<Longrightarrow> plainName n \<Longrightarrow> stackOK r (cs @ [n])"
  using stackOK_step[of r cs n] by (simp add: plainName_cleanStep)

lemma resolve_Join:
  assumes d: "d \<noteq> []" "dirsAlong fs (isRooted d) (cleanElems (isRooted d) d)"
    and n: "plainName n"
  shows "resolve fs (filepath_Join [d, n]) = Inr (filepath_Join [d, n])"
proof -
  let ?r = "isRooted d"
  let ?S = "cleanElems ?r d"
  let ?P = "renderPath ?r (?S @ [n])"
  have J: "filepath_Join [d, n] = ?P" using n by (rule Join2_plain)
  have ok: "stackOK ?r (?S @ [n])" using cleanElems_OK n by (rule stackOK_snoc_plain)
  have ns: "noSlash (?S @ [n])"
    using cleanElems_noSlash[of ?r d] n by (simp add: noSlash_def plainName_def)
  have ne: "?P \<noteq> []" using ok by (rule render_nonempty)
  have ro: "isRooted ?P = ?r" using ok ns by (rule isRooted_render)
  have sp: "strings_Split ?P ''/'' = (if ?r then [[]] else []) @ (?S @ [n])"
    using ok ns by (rule Split_render) simp
  have pre: "\<forall>k<length (?S @ [n]). fmlookup fs (renderPath ?r ([] @ take k (?S @ [n]))) = Some Directory"
  proof (intro allI impI)
    fix k assume "k < length (?S @ [n])"
    then have k: "k \<le> length ?S" by simp
    then have "take k (?S @ [n]) = take k ?S" by simp
    then show "fmlookup fs (renderPath ?r ([] @ take k (?S @ [n]))) = Some Directory"
      using d(2) k by (simp add: dirsAlong_def)
  qed
  have w: "walk fs ?r [] (?S @ [n]) = Inr (?S @ [n])"
    using walk_stack[of ?r "[]" "?S @ [n]" fs] ok pre by simp
  have root: "fmlookup fs (renderPath ?r []) = Some Directory"
    using d(2)[unfolded dirsAlong_def, rule_format, of 0] by simp
  have "walk fs ?r [] (strings_Split ?P ''/'') = Inr (?S @ [n])"
    unfolding sp using w root by (cases ?r) simp_all
  then have "resolve fs ?P = Inr ?P" using ne ro by (simp add: resolve_def)
  then show ?thesis unfolding J .
qed

lemma os_Stat_Join:
  assumes "d \<noteq> []" "dirsAlong fs (isRooted d) (cleanElems (isRooted d) d)" "plainName n"
  shows "os_Stat fs (filepath_Join [d, n]) =
     (case fmlookup fs (filepath_Join [d, n]) of None \<Rightarrow> Inl ErrNotExist | Some x \<Rightarrow> Inr x)"
  using resolve_Join[OF assms] by (simp add: os_Stat_def del: filepath_Join.simps)

subsection \<open>Stale-output cleanup\<close>

lemma Join2_inj: "plainName n \<Longrightarrow> plainName m \<Longrightarrow> filepath_Join [d, n] = filepath_Join [d, m] \<Longrightarrow> n = m"
  using Base_Join[of n d] Base_Join[of m d] by simp

lemma IsDir_iff: "IsDir n = (n = Directory)"
  by (cases n) (simp_all add: IsDir_def)

lemma dirsKept_drop: "fmlookup fs k \<noteq> Some Directory \<Longrightarrow> dirsKept fs (fmdrop k fs)"
  by (auto simp: dirsKept_def)

lemma plainName_Base: "plainName n \<Longrightarrow> n \<noteq> ''.'' \<and> n \<noteq> ''..'' \<and> n \<noteq> ''/''"
  by (auto simp: plainName_def)

lemma os_Remove_file:
  assumes "plainName n" "resolve fs (filepath_Join [d, n]) = Inr (filepath_Join [d, n])"
    "fmlookup fs (filepath_Join [d, n]) = Some x" "x \<noteq> Directory"
  shows "os_Remove (filepath_Join [d, n]) fs = (None, fmdrop (filepath_Join [d, n]) fs)"
  using assms Base_Join[of n d] plainName_Base[of n]
  by (cases x) (simp_all add: os_Remove_def IsDir_def del: filepath_Join.simps)

lemma removeEntries_spec:
  assumes "distinct ns" "\<forall>n\<in>set ns. plainName n"
    and "\<forall>n\<in>set ns. fmlookup fs (filepath_Join [d, n]) = fmlookup fs0 (filepath_Join [d, n])
                     \<and> fmlookup fs0 (filepath_Join [d, n]) \<noteq> None"
    and "d \<noteq> []" "dirsAlong fs (isRooted d) (cleanElems (isRooted d) d)"
  shows "removeEntries d (map (\<lambda>n. (n, fmlookup fs0 (filepath_Join [d, n]) = Some Directory)) ns) fs
     = (None, fmfilter (\<lambda>k. \<not> (\<exists>n\<in>set ns. k = filepath_Join [d, n]
                 \<and> fmlookup fs0 k \<noteq> Some Directory \<and> strings_HasSuffix n ''.schema.yaml'')) fs)"
  using assms
proof (induction ns arbitrary: fs)
  case Nil
  then show ?case by simp
next
  case (Cons n ns)
  let ?k = "filepath_Join [d, n]"
  let ?P = "\<lambda>ns k. \<not> (\<exists>n\<in>set ns. k = filepath_Join [d, n]
                 \<and> fmlookup fs0 k \<noteq> Some Directory \<and> strings_HasSuffix n ''.schema.yaml'')"
  have pn: "plainName n" using Cons.prems(2) by simp
  have lk: "fmlookup fs ?k = fmlookup fs0 ?k" and ex: "fmlookup fs0 ?k \<noteq> None"
    using Cons.prems(3) by simp_all
  have d': "distinct ns" and p': "\<forall>n\<in>set ns. plainName n" using Cons.prems by simp_all
  show ?case
  proof (cases "fmlookup fs0 ?k \<noteq> Some Directory \<and> strings_HasSuffix n ''.schema.yaml''")
    case False
    have keep: "\<forall>m\<in>set ns. fmlookup fs (filepath_Join [d, m]) = fmlookup fs0 (filepath_Join [d, m])
                     \<and> fmlookup fs0 (filepath_Join [d, m]) \<noteq> None"
      using Cons.prems(3) by simp
    have "removeEntries d (map (\<lambda>n. (n, fmlookup fs0 (filepath_Join [d, n]) = Some Directory)) (n # ns)) fs
          = removeEntries d (map (\<lambda>n. (n, fmlookup fs0 (filepath_Join [d, n]) = Some Directory)) ns) fs"
      using False by (auto simp del: filepath_Join.simps)
    also have "\<dots> = (None, fmfilter (?P ns) fs)"
      by (rule Cons.IH[OF d' p' keep Cons.prems(4,5)])
    also have "fmfilter (?P ns) fs = fmfilter (?P (n # ns)) fs"
      using False by (intro fmap_ext) (auto simp del: filepath_Join.simps)
    finally show ?thesis .
  next
    case True
    obtain x where x: "fmlookup fs ?k = Some x" "x \<noteq> Directory"
      using True lk ex by (cases "fmlookup fs0 ?k") auto
    have rs: "resolve fs ?k = Inr ?k" using Cons.prems(4,5) pn by (rule resolve_Join)
    have rm: "os_Remove ?k fs = (None, fmdrop ?k fs)"
      using pn rs x by (rule os_Remove_file)
    have "dirsKept fs (fmdrop ?k fs)" using x by (intro dirsKept_drop) simp
    with Cons.prems(5) have ch: "dirsAlong (fmdrop ?k fs) (isRooted d) (cleanElems (isRooted d) d)"
      by (rule dirsAlong_mono)
    have keep: "\<forall>m\<in>set ns. fmlookup (fmdrop ?k fs) (filepath_Join [d, m]) = fmlookup fs0 (filepath_Join [d, m])
                     \<and> fmlookup fs0 (filepath_Join [d, m]) \<noteq> None"
    proof
      fix m assume m: "m \<in> set ns"
      then have "m \<noteq> n" using Cons.prems(1) by auto
      then have "filepath_Join [d, m] \<noteq> ?k" using Join2_inj[of m n d] p' m pn by blast
      then show "fmlookup (fmdrop ?k fs) (filepath_Join [d, m]) = fmlookup fs0 (filepath_Join [d, m])
                     \<and> fmlookup fs0 (filepath_Join [d, m]) \<noteq> None"
        using Cons.prems(3) m by (simp del: filepath_Join.simps)
    qed
    have "removeEntries d (map (\<lambda>n. (n, fmlookup fs0 (filepath_Join [d, n]) = Some Directory)) (n # ns)) fs
          = removeEntries d (map (\<lambda>n. (n, fmlookup fs0 (filepath_Join [d, n]) = Some Directory)) ns) (fmdrop ?k fs)"
      using True rm by (simp del: filepath_Join.simps)
    also have "\<dots> = (None, fmfilter (?P ns) (fmdrop ?k fs))"
      by (rule Cons.IH[OF d' p' keep Cons.prems(4) ch])
    also have "fmfilter (?P ns) (fmdrop ?k fs) = fmfilter (?P (n # ns)) fs"
      using True by (intro fmap_ext) (auto simp del: filepath_Join.simps)
    finally show ?thesis .
  qed
qed

lemma entry_key_eq: "isEntryOf d k \<Longrightarrow> filepath_Join [d, filepath_Base k] = k"
  by (simp add: isEntryOf_def Let_def del: filepath_Join.simps)

lemma entryNames_set:
  "set (entryNames fs d) = filepath_Base ` {k. k |\<in>| fmdom fs \<and> isEntryOf d k}"
  by (auto simp: entryNames_def)

lemma entryNames_distinct: "distinct (entryNames fs d)"
proof -
  have "inj_on filepath_Base {k. isEntryOf d k}"
    by (rule inj_onI) (metis entry_key_eq mem_Collect_eq)
  then have "inj_on filepath_Base (set (filter (isEntryOf d) (sorted_list_of_fset (fmdom fs))))"
    by (rule inj_on_subset) auto
  moreover have "distinct (sorted_list_of_fset (fmdom fs))"
    by (simp add: sorted_list_of_fset.rep_eq)
  ultimately show ?thesis by (simp add: entryNames_def distinct_map)
qed

lemma entryNames_props:
  assumes "n \<in> set (entryNames fs d)"
  shows "plainName n" "fmlookup fs (filepath_Join [d, n]) \<noteq> None" "isEntryOf d (filepath_Join [d, n])"
proof -
  from assms obtain k where k: "k |\<in>| fmdom fs" "isEntryOf d k" "n = filepath_Base k"
    unfolding entryNames_set by blast
  show "plainName n" using k isEntryOf_plain by simp
  have e: "filepath_Join [d, n] = k" using k entry_key_eq by simp
  show "fmlookup fs (filepath_Join [d, n]) \<noteq> None" unfolding e using k(1) by (simp add: fmlookup_dom_iff)
  show "isEntryOf d (filepath_Join [d, n])" unfolding e using k(2) .
qed

lemma stale_iff:
  "(\<exists>n\<in>set (entryNames fs d). k = filepath_Join [d, n]
       \<and> fmlookup fs k \<noteq> Some Directory \<and> strings_HasSuffix n ''.schema.yaml'')
   = staleManifest d fs k"
proof
  assume "\<exists>n\<in>set (entryNames fs d). k = filepath_Join [d, n]
       \<and> fmlookup fs k \<noteq> Some Directory \<and> strings_HasSuffix n ''.schema.yaml''"
  then obtain n where n: "n \<in> set (entryNames fs d)" "k = filepath_Join [d, n]"
    "fmlookup fs k \<noteq> Some Directory" "strings_HasSuffix n ''.schema.yaml''" by blast
  have b: "filepath_Base k = n" unfolding n(2) using entryNames_props(1)[OF n(1)] by (rule Base_Join)
  have "fmlookup fs k \<noteq> None" unfolding n(2) using entryNames_props(2)[OF n(1)] .
  then have "case fmlookup fs k of None \<Rightarrow> False | Some x \<Rightarrow> \<not> IsDir x"
    using n(3) by (auto simp: IsDir_iff split: option.splits)
  then show "staleManifest d fs k"
    unfolding staleManifest_def b using entryNames_props(3)[OF n(1)] n(2,4) by simp
next
  assume s: "staleManifest d fs k"
  then have e: "isEntryOf d k" and sf: "strings_HasSuffix (filepath_Base k) ''.schema.yaml''"
    and nd: "case fmlookup fs k of None \<Rightarrow> False | Some x \<Rightarrow> \<not> IsDir x"
    by (simp_all add: staleManifest_def)
  from nd have dom: "k |\<in>| fmdom fs" and nd': "fmlookup fs k \<noteq> Some Directory"
    by (auto simp: fmlookup_dom_iff IsDir_iff split: option.splits)
  have "filepath_Base k \<in> set (entryNames fs d)" unfolding entryNames_set using dom e by blast
  moreover have "k = filepath_Join [d, filepath_Base k]" using entry_key_eq[OF e] by simp
  ultimately show "\<exists>n\<in>set (entryNames fs d). k = filepath_Join [d, n]
       \<and> fmlookup fs k \<noteq> Some Directory \<and> strings_HasSuffix n ''.schema.yaml''"
    using nd' sf by blast
qed

lemma removeGeneratedSchemas_dir:
  assumes "os_Stat fs outputDir = Inr Directory"
  shows "removeGeneratedSchemas outputDir fs =
           (None, fmfilter (\<lambda>k. \<not> staleManifest outputDir fs k) fs)"
proof -
  let ?ns = "entryNames fs outputDir"
  have rd: "os_ReadDir fs outputDir =
      Inr (map (\<lambda>n. (n, fmlookup fs (filepath_Join [outputDir, n]) = Some Directory)) ?ns)"
    using assms by (simp add: os_ReadDir_def del: filepath_Join.simps)
  have "removeEntries outputDir
          (map (\<lambda>n. (n, fmlookup fs (filepath_Join [outputDir, n]) = Some Directory)) ?ns) fs
        = (None, fmfilter (\<lambda>k. \<not> (\<exists>n\<in>set ?ns. k = filepath_Join [outputDir, n]
                 \<and> fmlookup fs k \<noteq> Some Directory \<and> strings_HasSuffix n ''.schema.yaml'')) fs)"
  proof (rule removeEntries_spec)
    show "distinct ?ns" by (rule entryNames_distinct)
    show "\<forall>n\<in>set ?ns. plainName n" using entryNames_props(1) by blast
    show "\<forall>n\<in>set ?ns. fmlookup fs (filepath_Join [outputDir, n]) = fmlookup fs (filepath_Join [outputDir, n])
                     \<and> fmlookup fs (filepath_Join [outputDir, n]) \<noteq> None"
      using entryNames_props(2) by blast
    show "outputDir \<noteq> []" using os_Stat_dirsAlong[OF assms] by simp
    show "dirsAlong fs (isRooted outputDir) (cleanElems (isRooted outputDir) outputDir)"
      using os_Stat_dirsAlong[OF assms] by simp
  qed
  then show ?thesis
    unfolding removeGeneratedSchemas_def rd stale_iff by simp
qed

lemma removeGeneratedSchemas_absent:
  assumes "os_Stat fs outputDir = Inl ErrNotExist"
  shows "removeGeneratedSchemas outputDir fs = (None, fs)"
  using assms by (simp add: removeGeneratedSchemas_def os_ReadDir_def)

lemma removeGeneratedSchemas_error:
  assumes "os_Stat fs outputDir = Inl e" "e \<noteq> ErrNotExist"
  shows "removeGeneratedSchemas outputDir fs = (Some e, fs)"
  using assms by (simp add: removeGeneratedSchemas_def os_ReadDir_def)

lemma removeGeneratedSchemas_notdir:
  assumes "os_Stat fs outputDir = Inr n" "n \<noteq> Directory"
  shows "removeGeneratedSchemas outputDir fs = (Some ErrNotDir, fs)"
  using assms by (cases n) (simp_all add: removeGeneratedSchemas_def os_ReadDir_def)

text \<open>
  Claim C6: when the output directory does not exist (\<^verbatim>\<open>os.Stat\<close> answers that the path
  does not exist: a name on the path is missing), the cleanup succeeds and changes
  nothing; when it is a directory, the cleanup succeeds and the file system it leaves is
  the old one without the entries of the output directory that are not directories and
  whose names end with \<^verbatim>\<open>.schema.yaml\<close>: every other path keeps its node. In every
  other case (the path leads through a file, or is not a directory) the cleanup returns
  the error and changes nothing.
\<close>

theorem removeGeneratedSchemas_exact:
  "(os_Stat fs outputDir = Inl ErrNotExist \<longrightarrow>
      removeGeneratedSchemas outputDir fs = (None, fs)) \<and>
   (os_Stat fs outputDir = Inr Directory \<longrightarrow>
      removeGeneratedSchemas outputDir fs =
        (None, fmfilter (\<lambda>k. \<not> staleManifest outputDir fs k) fs)) \<and>
   (\<forall>e. os_Stat fs outputDir = Inl e \<and> e \<noteq> ErrNotExist \<longrightarrow>
      removeGeneratedSchemas outputDir fs = (Some e, fs)) \<and>
   (\<forall>n. os_Stat fs outputDir = Inr n \<and> n \<noteq> Directory \<longrightarrow>
      removeGeneratedSchemas outputDir fs = (Some ErrNotDir, fs))"
  using removeGeneratedSchemas_absent removeGeneratedSchemas_dir
    removeGeneratedSchemas_error removeGeneratedSchemas_notdir by blast

theorem removeGeneratedSchemas_exact_witness:
  "os_Stat staleFiles ''out'' = Inr Directory \<and>
   removeGeneratedSchemas ''out'' staleFiles =
     (None, fmfilter (\<lambda>k. \<not> staleManifest ''out'' staleFiles k) staleFiles) \<and>
   fmfilter (\<lambda>k. \<not> staleManifest ''out'' staleFiles k) staleFiles =
     fmap_of_list
       [(''.'', Directory), (''out'', Directory),
        (''out/dir.schema.yaml'', Directory),
        (''out/dir.schema.yaml/in.schema.yaml'', Regular ''y''),
        (''out/kustomization.yaml'', Regular ''z''),
        (''old.schema.yaml'', Regular ''w'')] \<and>
   os_Stat staleFiles ''nowhere'' = Inl ErrNotExist \<and>
   removeGeneratedSchemas ''nowhere'' staleFiles = (None, staleFiles) \<and>
   os_Stat staleFiles ''nowhere/../out'' = Inl ErrNotExist \<and>
   removeGeneratedSchemas ''nowhere/../out'' staleFiles = (None, staleFiles) \<and>
   os_Stat staleFiles ''old.schema.yaml/out'' = Inl ErrNotDir \<and>
   ErrNotDir \<noteq> ErrNotExist \<and>
   removeGeneratedSchemas ''old.schema.yaml/out'' staleFiles = (Some ErrNotDir, staleFiles) \<and>
   os_Stat staleFiles ''old.schema.yaml'' = Inr (Regular ''w'') \<and>
   Regular ''w'' \<noteq> Directory \<and>
   removeGeneratedSchemas ''old.schema.yaml'' staleFiles = (Some ErrNotDir, staleFiles)"
proof -
  have h1: "os_Stat staleFiles ''out'' = Inr Directory" by code_simp
  have h2: "os_Stat staleFiles ''nowhere'' = Inl ErrNotExist" by code_simp
  have h3: "os_Stat staleFiles ''nowhere/../out'' = Inl ErrNotExist" by code_simp
  have h4: "os_Stat staleFiles ''old.schema.yaml/out'' = Inl ErrNotDir" by code_simp
  have h5: "os_Stat staleFiles ''old.schema.yaml'' = Inr (Regular ''w'')" by code_simp
  have v: "fmfilter (\<lambda>k. \<not> staleManifest ''out'' staleFiles k) staleFiles =
     fmap_of_list
       [(''.'', Directory), (''out'', Directory),
        (''out/dir.schema.yaml'', Directory),
        (''out/dir.schema.yaml/in.schema.yaml'', Regular ''y''),
        (''out/kustomization.yaml'', Regular ''z''),
        (''old.schema.yaml'', Regular ''w'')]" by code_simp
  show ?thesis
    using h1 h2 h3 h4 h5 v removeGeneratedSchemas_exact[of staleFiles "''out''"]
      removeGeneratedSchemas_exact[of staleFiles "''nowhere''"]
      removeGeneratedSchemas_exact[of staleFiles "''nowhere/../out''"]
      removeGeneratedSchemas_exact[of staleFiles "''old.schema.yaml/out''"]
      removeGeneratedSchemas_exact[of staleFiles "''old.schema.yaml''"]
    by simp
qed

subsection \<open>Input resolution\<close>

lemma keepRegular_filter: "keepRegular fs ms acc = acc @ filter (statsRegular fs) ms"
  by (induction ms arbitrary: acc) (auto simp: statsRegular_def split: sum.splits)

lemma statsRegular_iff: "statsRegular fs m = (\<exists>c. os_Stat fs m = Inr (Regular c))"
  by (auto simp: statsRegular_def IsRegular_def split: sum.splits node.splits)

text \<open>
  Claim C7: when \<^verbatim>\<open>filepath.Glob\<close> fails (a malformed pattern), input resolution returns
  that error; otherwise it returns, in sorted order, exactly the matches on which
  \<^verbatim>\<open>os.Stat\<close> succeeds and reports a regular file: a match that cannot be stat'ed, a
  directory and a special file are left out, and none of them is an error.
\<close>

theorem resolveInputs_regular_sorted:
  "(\<forall>e. glob (filepath_Join [pubsubDir, globPattern]) = Inl e \<longrightarrow>
        resolveInputs glob fs pubsubDir globPattern = Inl e) \<and>
   (\<forall>ms. glob (filepath_Join [pubsubDir, globPattern]) = Inr ms \<longrightarrow>
        resolveInputs glob fs pubsubDir globPattern = Inr (sort (filter (statsRegular fs) ms)) \<and>
        sorted (sort (filter (statsRegular fs) ms)) \<and>
        (\<forall>m. m \<in> set (sort (filter (statsRegular fs) ms)) \<longleftrightarrow>
               m \<in> set ms \<and> (\<exists>c. os_Stat fs m = Inr (Regular c))))"
  by (auto simp: resolveInputs_def keepRegular_filter statsRegular_iff)

theorem resolveInputs_regular_sorted_witness:
  "mixedGlob (filepath_Join [''in'', ''*.pubsub.proto'']) =
     Inr [''in/b.pubsub.proto'', ''in/d.pubsub.proto'', ''in/gone.pubsub.proto'',
          ''in/a.pubsub.proto'', ''in/s.pubsub.proto''] \<and>
   resolveInputs mixedGlob mixedFiles ''in'' ''*.pubsub.proto''
     = Inr [''in/a.pubsub.proto'', ''in/b.pubsub.proto''] \<and>
   mixedGlob (filepath_Join [''in'', ''['']) = Inl ErrBadPattern \<and>
   resolveInputs mixedGlob mixedFiles ''in'' ''['' = Inl ErrBadPattern"
proof -
  have g: "mixedGlob (filepath_Join [''in'', ''*.pubsub.proto'']) =
     Inr [''in/b.pubsub.proto'', ''in/d.pubsub.proto'', ''in/gone.pubsub.proto'',
          ''in/a.pubsub.proto'', ''in/s.pubsub.proto'']" by code_simp
  have b: "mixedGlob (filepath_Join [''in'', ''['']) = Inl ErrBadPattern" by code_simp
  have v: "sort (filter (statsRegular mixedFiles)
     [''in/b.pubsub.proto'', ''in/d.pubsub.proto'', ''in/gone.pubsub.proto'',
      ''in/a.pubsub.proto'', ''in/s.pubsub.proto''])
     = [''in/a.pubsub.proto'', ''in/b.pubsub.proto'']" by code_simp
  show ?thesis
    using g b v
      resolveInputs_regular_sorted[of mixedGlob "''in''" "''*.pubsub.proto''" mixedFiles]
      resolveInputs_regular_sorted[of mixedGlob "''in''" "''[''" mixedFiles]
    by simp
qed

subsection \<open>Empty input set\<close>

text \<open>
  Claim C5: with an empty list of input files \<^verbatim>\<open>generateAll\<close> returns the error
  \<^verbatim>\<open>no pubsub proto files found\<close> and leaves the world as it was (nothing is written,
  nothing is removed, nothing is printed); so does a run whose input resolution finds
  no file.
\<close>

theorem empty_input_fails_unchanged:
  "generateAll lu [] outputDir w = (Some ErrNoInputs, w) \<and>
   (outputDir \<noteq> [] \<and>
    resolveInputs (glob (files w)) (files w) pubsubDir globPattern = Inr [] \<longrightarrow>
      run glob lu pubsubDir globPattern outputDir w = (Some ErrNoInputs, w))"
  by (simp add: generateAll_def run_def)

theorem empty_input_fails_unchanged_witness:
  "''out'' \<noteq> [] \<and>
   resolveInputs (noMatchGlob staleFiles) staleFiles ''gen/proto/infra/pubsub'' ''*.pubsub.proto''
     = Inr [] \<and>
   run noMatchGlob (\<lambda>s. s) ''gen/proto/infra/pubsub'' ''*.pubsub.proto'' ''out''
       \<lparr>files = staleFiles, stdout = []\<rparr>
     = (Some ErrNoInputs, \<lparr>files = staleFiles, stdout = []\<rparr>) \<and>
   fmlookup staleFiles ''out/old.schema.yaml'' = Some (Regular ''x'')"
proof -
  have r: "resolveInputs (noMatchGlob staleFiles) staleFiles ''gen/proto/infra/pubsub''
             ''*.pubsub.proto'' = Inr []"
    by (simp add: resolveInputs_def noMatchGlob_def)
  have l: "fmlookup staleFiles ''out/old.schema.yaml'' = Some (Regular ''x'')" by code_simp
  show ?thesis
    using r l
      empty_input_fails_unchanged[of "\<lambda>s. s" "''out''" "\<lparr>files = staleFiles, stdout = []\<rparr>"
        noMatchGlob "''gen/proto/infra/pubsub''" "''*.pubsub.proto''"]
    by simp
qed

subsection \<open>The end-to-end example\<close>

text \<open>
  Claim C1: in the example world a run with the default directory and glob and the
  output directory \<^verbatim>\<open>out\<close> succeeds; it writes
  \<^verbatim>\<open>out/coreapp-test-v1-testevent.schema.yaml\<close> with the fixed header, the name
  \<^verbatim>\<open>coreapp-test-v1-testevent\<close> and the definition block made of the indented line, a
  line feed and four spaces (no line feed at the end); it writes
  \<^verbatim>\<open>out/kustomization.yaml\<close> whose resources list has the one entry
  \<^verbatim>\<open>coreapp-test-v1-testevent.schema.yaml\<close>; and these two files are all that the output
  directory holds.
\<close>

theorem end_to_end_example:
  "fst exampleRun = None \<and>
   fmlookup (files (snd exampleRun)) ''out/coreapp-test-v1-testevent.schema.yaml'' =
     Some (Regular (
       ''apiVersion: pubsub.cnrm.cloud.google.com/v1beta1'' @ [LF] @
       ''kind: PubSubSchema'' @ [LF] @
       ''metadata:'' @ [LF] @
       ''  name: coreapp-test-v1-testevent'' @ [LF] @
       ''spec:'' @ [LF] @
       ''  type: PROTOCOL_BUFFER'' @ [LF] @
       ''  definition: |'' @ [LF] @
       ''    message TestEvent {}'' @ [LF] @
       ''    '')) \<and>
   fmlookup (files (snd exampleRun)) ''out/kustomization.yaml'' =
     Some (Regular (
       ''apiVersion: kustomize.config.k8s.io/v1beta1'' @ [LF] @
       ''kind: Kustomization'' @ [LF, LF] @
       ''resources:'' @ [LF] @
       ''  - coreapp-test-v1-testevent.schema.yaml'' @ [LF])) \<and>
   entryNames (files (snd exampleRun)) ''out'' =
     [''coreapp-test-v1-testevent.schema.yaml'', ''kustomization.yaml'']"
proof -
  have e1: "fst exampleRun = None" by code_simp
  have e2: "fmlookup (files (snd exampleRun)) ''out/coreapp-test-v1-testevent.schema.yaml'' =
     Some (Regular (
       ''apiVersion: pubsub.cnrm.cloud.google.com/v1beta1'' @ [LF] @
       ''kind: PubSubSchema'' @ [LF] @
       ''metadata:'' @ [LF] @
       ''  name: coreapp-test-v1-testevent'' @ [LF] @
       ''spec:'' @ [LF] @
       ''  type: PROTOCOL_BUFFER'' @ [LF] @
       ''  definition: |'' @ [LF] @
       ''    message TestEvent {}'' @ [LF] @
       ''    ''))" by code_simp
  have e3: "fmlookup (files (snd exampleRun)) ''out/kustomization.yaml'' =
     Some (Regular (
       ''apiVersion: kustomize.config.k8s.io/v1beta1'' @ [LF] @
       ''kind: Kustomization'' @ [LF, LF] @
       ''resources:'' @ [LF] @
       ''  - coreapp-test-v1-testevent.schema.yaml'' @ [LF]))" by code_simp
  have e4: "entryNames (files (snd exampleRun)) ''out'' =
     [''coreapp-test-v1-testevent.schema.yaml'', ''kustomization.yaml'']" by code_simp
  show ?thesis using e1 e2 e3 e4 by blast
qed

subsection \<open>Writing files and the index\<close>

declare os_MkdirAll.simps [simp del]

lemma dirExt_refl: "dirExt fs fs"
  by (simp add: dirExt_def)

lemma dirExt_trans: "dirExt a b \<Longrightarrow> dirExt b c \<Longrightarrow> dirExt a c"
  unfolding dirExt_def by metis

lemma os_Mkdir_cases:
  "os_Mkdir path fs = (r, fs') \<Longrightarrow>
     (r \<noteq> None \<and> fs' = fs) \<or>
     (r = None \<and> path \<noteq> [] \<and> resolveNew fs path = Inr (filepath_Clean path) \<and>
      fmlookup fs (filepath_Clean path) = None \<and>
      fs' = fmupd (filepath_Clean path) Directory fs)"
  by (auto simp: os_Mkdir_def dest: resolveNew_Clean split: if_splits sum.splits option.splits)

lemma os_Mkdir_dirExt: "os_Mkdir path fs = (r, fs') \<Longrightarrow> dirExt fs fs'"
  by (drule os_Mkdir_cases) (auto simp: dirExt_def split: if_splits)

lemma resolveNew_resolve:
  assumes "resolveNew fs path = Inr key" "fmlookup fs key = Some Directory"
  shows "resolve fs path = Inr key"
proof -
  let ?r = "isRooted path"
  let ?es = "strings_Split path ''/''"
  from assms(1) obtain cur where ne: "path \<noteq> []"
    and w: "walk fs ?r [] (trimEmpty ?es) = Inr cur" and key: "key = renderPath ?r cur"
    by (auto simp: resolveNew_def split: if_splits sum.splits)
  obtain m where m: "?es = trimEmpty ?es @ replicate m []" using trimEmpty_decomp by blast
  have "walk fs ?r [] (trimEmpty ?es @ replicate m []) = Inr cur"
    using w walk_empties[of fs ?r cur m] assms(2) key by (simp add: walk_append)
  then have "walk fs ?r [] ?es = Inr cur" using m by simp
  then show ?thesis using ne key by (simp add: resolve_def)
qed

lemma os_MkdirAll_dirExt: "os_MkdirAll path fs = (r, fs') \<Longrightarrow> dirExt fs fs'"
proof (induction path fs arbitrary: r fs' rule: os_MkdirAll.induct)
  case (1 path fs)
  show ?case
  proof (cases "os_Stat fs path")
    case (Inr n)
    then have "fs' = fs" using "1.prems" by (simp add: os_MkdirAll.simps[of path fs] split: if_splits)
    then show ?thesis by (simp add: dirExt_refl)
  next
    case (Inl e)
    obtain rp fp where par: "(if mkdirParent path \<noteq> [] then os_MkdirAll (mkdirParent path) fs
                 else (None, fs)) = (rp, fp)" by fastforce
    have dp: "dirExt fs fp"
    proof (cases "mkdirParent path \<noteq> []")
      case True
      then show ?thesis using "1.IH"[OF Inl True, of rp fp] par by simp
    next
      case False
      then show ?thesis using par by (simp add: dirExt_refl)
    qed
    show ?thesis
    proof (cases rp)
      case (Some e')
      then have "fs' = fp" using "1.prems" Inl par by (simp add: os_MkdirAll.simps[of path fs])
      then show ?thesis using dp by simp
    next
      case None
      obtain rm fm where mk: "os_Mkdir path fp = (rm, fm)" by fastforce
      have "fs' = fm" using "1.prems" Inl par None mk
        by (auto simp: os_MkdirAll.simps[of path fs] split: option.splits sum.splits node.splits)
      then show ?thesis using dp os_Mkdir_dirExt[OF mk] dirExt_trans by blast
    qed
  qed
qed

lemma os_MkdirAll_post:
  assumes "os_MkdirAll path fs = (None, fs')"
  shows "os_Stat fs' path = Inr Directory"
proof (cases "os_Stat fs path")
  case (Inr n)
  then show ?thesis using assms
    by (cases n) (simp_all add: os_MkdirAll.simps[of path fs] IsDir_def split: if_splits)
next
  case (Inl e)
  obtain rp fp where par: "(if mkdirParent path \<noteq> [] then os_MkdirAll (mkdirParent path) fs
                 else (None, fs)) = (rp, fp)" by fastforce
  obtain rm fm where mk: "os_Mkdir path fp = (rm, fm)" by fastforce
  have rp: "rp = None" using assms Inl par by (cases rp) (simp_all add: os_MkdirAll.simps[of path fs])
  show ?thesis
  proof (cases rm)
    case None
    then have f: "fs' = fm" using assms Inl par rp mk by (simp add: os_MkdirAll.simps[of path fs])
    have c: "resolveNew fp path = Inr (filepath_Clean path)"
      "fm = fmupd (filepath_Clean path) Directory fp"
      using os_Mkdir_cases[OF mk] None by auto
    have "dirsKept fp fm" using os_Mkdir_dirExt[OF mk] by (rule dirExt_dirsKept)
    with c(1) have "resolveNew fm path = Inr (filepath_Clean path)" by (rule resolveNew_mono)
    moreover have l: "fmlookup fm (filepath_Clean path) = Some Directory" using c(2) by simp
    ultimately have "resolve fm path = Inr (filepath_Clean path)" by (rule resolveNew_resolve)
    then show ?thesis using l f by (simp add: os_Stat_iff)
  next
    case (Some e')
    then show ?thesis using assms Inl par rp mk
      by (auto simp: os_MkdirAll.simps[of path fs] split: sum.splits node.splits)
  qed
qed

lemma os_MkdirAll_noop: "os_Stat fs path = Inr Directory \<Longrightarrow> os_MkdirAll path fs = (None, fs)"
  by (simp add: os_MkdirAll.simps[of path fs] IsDir_def)

lemma os_WriteFile_cases:
  "os_WriteFile path c fs = (r, fs') \<Longrightarrow>
     (r \<noteq> None \<and> fs' = fs) \<or>
     (r = None \<and> path \<noteq> [] \<and> resolveNew fs path = Inr (filepath_Clean path) \<and>
      (fmlookup fs (filepath_Clean path) = None \<or>
       (\<exists>c0. fmlookup fs (filepath_Clean path) = Some (Regular c0))) \<and>
      fs' = fmupd (filepath_Clean path) (Regular c) fs)"
  by (auto simp: os_WriteFile_def dest: resolveNew_Clean
      split: if_splits sum.splits option.splits node.splits)

lemma writeFile_success:
  assumes "writeFile path c fs = (None, fs')"
  shows "\<exists>fs1. dirExt fs fs1 \<and> os_Stat fs1 (filepath_Dir path) = Inr Directory \<and> path \<noteq> [] \<and>
      resolveNew fs1 path = Inr (filepath_Clean path) \<and>
      (fmlookup fs1 (filepath_Clean path) = None \<or>
       (\<exists>c0. fmlookup fs1 (filepath_Clean path) = Some (Regular c0))) \<and>
      fs' = fmupd (filepath_Clean path) (Regular (strings_ReplaceAll c [CR, LF] [LF])) fs1"
proof -
  obtain rm fs1 where mk: "os_MkdirAll (filepath_Dir path) fs = (rm, fs1)" by fastforce
  have rm: "rm = None" using assms mk by (cases rm) (simp_all add: writeFile_def)
  have wf: "os_WriteFile path (strings_ReplaceAll c [CR, LF] [LF]) fs1 = (None, fs')"
    using assms mk rm by (simp add: writeFile_def)
  show ?thesis
    using os_MkdirAll_dirExt[OF mk] os_MkdirAll_post[OF mk[unfolded rm]] os_WriteFile_cases[OF wf]
    by blast
qed

lemma writeFile_lookup:
  "writeFile path c fs = (None, fs') \<Longrightarrow>
   fmlookup fs' (filepath_Clean path) = Some (Regular (strings_ReplaceAll c [CR, LF] [LF]))"
  by (drule writeFile_success) auto

lemma plain_index: "plainName ''kustomization.yaml''"
  by (simp add: plainName_def)

lemma indexPath_clean: "filepath_Clean (indexPath out) = indexPath out"
  unfolding indexPath_def using Join2_plain_nonempty[OF plain_index] by (rule Join2_clean)

lemma writeKustomization_lookup:
  "writeKustomization out rs fs = (None, fs') \<Longrightarrow>
   fmlookup fs' (indexPath out) =
     Some (Regular (strings_ReplaceAll (kustomizationText rs) [CR, LF] [LF]))"
  unfolding writeKustomization_def indexPath_def[symmetric]
  using writeFile_lookup[of "indexPath out"] indexPath_clean[of out] by simp

lemma generateEach_generated:
  "generateEach lu out ps g w = (Inr g', w') \<Longrightarrow> g' = g @ map (resourceName lu out) ps"
proof (induction ps arbitrary: g w)
  case Nil
  then show ?case by simp
next
  case (Cons p ps)
  from Cons.prems obtain proto where rd: "os_ReadFile (files w) p = Inr proto"
    by (cases "os_ReadFile (files w) p") (simp_all del: filepath_Join.simps)
  let ?name = "deriveSchemaNameFromFilename lu p"
  let ?out = "filepath_Join [out, ?name @ ''.schema.yaml'']"
  obtain r fs' where wr: "writeFile ?out (schemaManifest ?name (normalizeNewlines proto)) (files w) = (r, fs')"
    by fastforce
  have r: "r = None" using Cons.prems rd wr by (cases r) (simp_all add: Let_def del: filepath_Join.simps)
  have "generateEach lu out ps (g @ [filepath_Base ?out])
      (w\<lparr>files := fs', stdout := stdout w @ [''Wrote '' @ ?name @ '' -> '' @ ?out @ [LF]]\<rparr>) = (Inr g', w')"
    using Cons.prems rd wr r by (simp add: Let_def del: filepath_Join.simps)
  from Cons.IH[OF this] show ?case by (simp add: resourceName_def outputPath_def)
qed

lemma generateAll_success:
  assumes "generateAll lu fl out w = (None, w')"
  shows "fl \<noteq> [] \<and> (\<exists>fs0 wE.
      removeGeneratedSchemas out (files w) = (None, fs0) \<and>
      generateEach lu out fl [] (w\<lparr>files := fs0\<rparr>) = (Inr (map (resourceName lu out) fl), wE) \<and>
      writeKustomization out (sort (map (resourceName lu out) fl)) (files wE) = (None, files w') \<and>
      w' = wE\<lparr>files := files w'\<rparr>)"
proof -
  have ne: "fl \<noteq> []" using assms by (auto simp: generateAll_def)
  obtain r0 fs0 where rm: "removeGeneratedSchemas out (files w) = (r0, fs0)" by fastforce
  have r0: "r0 = None" using assms ne rm by (cases r0) (simp_all add: generateAll_def)
  obtain rg wE where ge: "generateEach lu out fl [] (w\<lparr>files := fs0\<rparr>) = (rg, wE)" by fastforce
  obtain g where rg: "rg = Inr g" using assms ne rm r0 ge by (cases rg) (simp_all add: generateAll_def)
  have g: "g = map (resourceName lu out) fl" using generateEach_generated[OF ge[unfolded rg]] by simp
  obtain rk fsk where wk: "writeKustomization out (sort g) (files wE) = (rk, fsk)" by fastforce
  have "rk = None \<and> w' = wE\<lparr>files := fsk\<rparr>"
    using assms ne rm r0 ge rg wk by (simp add: generateAll_def)
  then show ?thesis using ne rm r0 ge rg g wk by auto
qed

lemma generateAll_index:
  assumes "generateAll lu fl out w = (None, w')"
  shows "fmlookup (files w') (indexPath out) =
     Some (Regular (strings_ReplaceAll
        (kustomizationText (sort (map (resourceName lu out) fl))) [CR, LF] [LF]))"
  using generateAll_success[OF assms] writeKustomization_lookup by blast

lemma sort_map_mset: "mset xs = mset ys \<Longrightarrow> sort (map f xs) = sort (map f ys)"
  by (metis mset_map mset_sort properties_for_sort sorted_sort)

lemma plain_manifest_name: "CHR ''/'' \<notin> set n \<Longrightarrow> plainName (n @ ''.schema.yaml'')"
  by (auto simp: plainName_def append_eq_Cons_conv)

lemma resourceName_plain:
  "CHR ''/'' \<notin> set (deriveSchemaNameFromFilename lu p) \<Longrightarrow>
   resourceName lu out p = deriveSchemaNameFromFilename lu p @ ''.schema.yaml''"
  unfolding resourceName_def outputPath_def by (rule Base_Join[OF plain_manifest_name])

text \<open>
  Claim C8: after a successful \<^verbatim>\<open>generateAll\<close> the index manifest holds the fixed
  header and one line per input, the recorded base names in sorted order; so any two
  successful runs on the same inputs, enumerated in any order, write the same index;
  and for two inputs whose derived names are \<^verbatim>\<open>a\<close> and \<^verbatim>\<open>b\<close> the index lists
  \<^verbatim>\<open>a.schema.yaml\<close> before \<^verbatim>\<open>b.schema.yaml\<close> in either order of the inputs.
\<close>

theorem index_sorted_any_order:
  assumes "generateAll lu fl out w = (None, w')"
  shows "fmlookup (files w') (indexPath out) =
           Some (Regular (strings_ReplaceAll
             (kustomizationText (sort (map (resourceName lu out) fl))) [CR, LF] [LF])) \<and>
         (\<forall>fl2 w2 w2'. mset fl2 = mset fl \<and> generateAll lu fl2 out w2 = (None, w2') \<longrightarrow>
            fmlookup (files w2') (indexPath out) = fmlookup (files w') (indexPath out)) \<and>
         (\<forall>p q. deriveSchemaNameFromFilename lu p = ''a'' \<and>
                deriveSchemaNameFromFilename lu q = ''b'' \<and> (fl = [p, q] \<or> fl = [q, p]) \<longrightarrow>
            fmlookup (files w') (indexPath out) =
              Some (Regular (
                ''apiVersion: kustomize.config.k8s.io/v1beta1'' @ [LF] @
                ''kind: Kustomization'' @ [LF, LF] @
                ''resources:'' @ [LF] @
                ''  - a.schema.yaml'' @ [LF] @
                ''  - b.schema.yaml'' @ [LF])))"
proof (intro conjI allI impI)
  show idx: "fmlookup (files w') (indexPath out) =
           Some (Regular (strings_ReplaceAll
             (kustomizationText (sort (map (resourceName lu out) fl))) [CR, LF] [LF]))"
    using assms by (rule generateAll_index)
  fix fl2 w2 w2'
  assume "mset fl2 = mset fl \<and> generateAll lu fl2 out w2 = (None, w2')"
  then show "fmlookup (files w2') (indexPath out) = fmlookup (files w') (indexPath out)"
    using generateAll_index[of lu fl2 out w2 w2'] idx sort_map_mset[of fl2 fl "resourceName lu out"]
    by simp
next
  fix p q
  assume h: "deriveSchemaNameFromFilename lu p = ''a'' \<and>
             deriveSchemaNameFromFilename lu q = ''b'' \<and> (fl = [p, q] \<or> fl = [q, p])"
  have rp: "resourceName lu out p = ''a.schema.yaml''"
    using resourceName_plain[of lu p out] h by simp
  have rq: "resourceName lu out q = ''b.schema.yaml''"
    using resourceName_plain[of lu q out] h by simp
  have s1: "sort [''a.schema.yaml'', ''b.schema.yaml''] = [''a.schema.yaml'', ''b.schema.yaml'']"
    by code_simp
  have s2: "sort [''b.schema.yaml'', ''a.schema.yaml''] = [''a.schema.yaml'', ''b.schema.yaml'']"
    by code_simp
  have srt: "sort (map (resourceName lu out) fl) = [''a.schema.yaml'', ''b.schema.yaml'']"
    using h rp rq s1 s2 by auto
  have ktext: "strings_ReplaceAll (kustomizationText [''a.schema.yaml'', ''b.schema.yaml'']) [CR, LF] [LF]
      = ''apiVersion: kustomize.config.k8s.io/v1beta1'' @ [LF] @
                ''kind: Kustomization'' @ [LF, LF] @
                ''resources:'' @ [LF] @
                ''  - a.schema.yaml'' @ [LF] @
                ''  - b.schema.yaml'' @ [LF]"
    by code_simp
  show "fmlookup (files w') (indexPath out) =
              Some (Regular (
                ''apiVersion: kustomize.config.k8s.io/v1beta1'' @ [LF] @
                ''kind: Kustomization'' @ [LF, LF] @
                ''resources:'' @ [LF] @
                ''  - a.schema.yaml'' @ [LF] @
                ''  - b.schema.yaml'' @ [LF]))"
    using generateAll_index[OF assms] unfolding srt ktext .
qed

theorem index_sorted_any_order_witness:
  "twoRun = (None, snd twoRun) \<and>
   deriveSchemaNameFromFilename (\<lambda>s. s) ''in/a.pubsub.proto'' = ''a'' \<and>
   deriveSchemaNameFromFilename (\<lambda>s. s) ''in/b.pubsub.proto'' = ''b'' \<and>
   fmlookup (files (snd twoRun)) (indexPath ''out'') =
     Some (Regular (
       ''apiVersion: kustomize.config.k8s.io/v1beta1'' @ [LF] @
       ''kind: Kustomization'' @ [LF, LF] @
       ''resources:'' @ [LF] @
       ''  - a.schema.yaml'' @ [LF] @
       ''  - b.schema.yaml'' @ [LF]))"
proof -
  have f: "fst twoRun = None" by code_simp
  then have r: "twoRun = (None, snd twoRun)" by (metis prod.collapse)
  have a: "deriveSchemaNameFromFilename (\<lambda>s. s) ''in/a.pubsub.proto'' = ''a''" by code_simp
  have b: "deriveSchemaNameFromFilename (\<lambda>s. s) ''in/b.pubsub.proto'' = ''b''" by code_simp
  show ?thesis
    using r a b index_sorted_any_order[OF r[unfolded twoRun_def], folded twoRun_def]
    by blast
qed

subsection \<open>Two inputs with the same derived name\<close>

lemma Clean_nonempty: "filepath_Clean p \<noteq> []"
  using render_nonempty[OF cleanElems_OK, of "isRooted p" p] by (simp add: filepath_Clean_def)

lemma Join2_nonempty: "n \<noteq> [] \<Longrightarrow> filepath_Join [d, n] \<noteq> []"
  by (simp add: Clean_nonempty)

lemma outputPath_clean: "filepath_Clean (outputPath lu out x) = outputPath lu out x"
  unfolding outputPath_def by (rule Join2_clean) (simp add: Clean_nonempty)

lemma dirExt_Regular:
  "dirExt fs fs' \<Longrightarrow> (fmlookup fs' k = Some (Regular c) \<longleftrightarrow> fmlookup fs k = Some (Regular c))"
  unfolding dirExt_def by (metis node.distinct(1) option.distinct(1) option.inject)

lemma writeFile_frame:
  assumes "writeFile path c fs = (None, fs')" "k \<noteq> filepath_Clean path"
  shows "fmlookup fs' k = Some (Regular x) \<longleftrightarrow> fmlookup fs k = Some (Regular x)"
proof -
  from writeFile_success[OF assms(1)] obtain fs1 where
    d: "dirExt fs fs1" and e: "fs' = fmupd (filepath_Clean path) (Regular (strings_ReplaceAll c [CR, LF] [LF])) fs1"
    by blast
  show ?thesis unfolding e using assms(2) dirExt_Regular[OF d, of k x] by simp
qed

lemma generateEach_step:
  assumes "generateEach lu out (p # ps) g w = (Inr g', wE)"
  shows "\<exists>proto fs'. os_ReadFile (files w) p = Inr proto \<and>
     writeFile (outputPath lu out p)
        (schemaManifest (deriveSchemaNameFromFilename lu p) (normalizeNewlines proto)) (files w)
       = (None, fs') \<and>
     generateEach lu out ps (g @ [resourceName lu out p])
        (w\<lparr>files := fs', stdout := stdout w @
           [''Wrote '' @ deriveSchemaNameFromFilename lu p @ '' -> '' @ outputPath lu out p @ [LF]]\<rparr>)
       = (Inr g', wE)"
proof -
  from assms obtain proto where rd: "os_ReadFile (files w) p = Inr proto"
    by (cases "os_ReadFile (files w) p") (simp_all del: filepath_Join.simps)
  let ?name = "deriveSchemaNameFromFilename lu p"
  obtain r fs' where wr: "writeFile (outputPath lu out p) (schemaManifest ?name (normalizeNewlines proto)) (files w) = (r, fs')"
    by fastforce
  have r: "r = None" using assms rd wr
    by (cases r) (simp_all add: Let_def outputPath_def del: filepath_Join.simps)
  show ?thesis using assms rd wr r
    by (simp add: Let_def outputPath_def resourceName_def del: filepath_Join.simps)
qed

lemma generateEach_frame:
  assumes "generateEach lu out ps g w = (Inr g', wE)" "\<forall>x\<in>set ps. outputPath lu out x \<noteq> k"
  shows "fmlookup (files wE) k = Some (Regular c) \<longleftrightarrow> fmlookup (files w) k = Some (Regular c)"
  using assms
proof (induction ps arbitrary: g w)
  case Nil
  then show ?case by simp
next
  case (Cons p ps)
  from generateEach_step[OF Cons.prems(1)] obtain proto fs' where
    wr: "writeFile (outputPath lu out p)
        (schemaManifest (deriveSchemaNameFromFilename lu p) (normalizeNewlines proto)) (files w)
       = (None, fs')"
    and rest: "generateEach lu out ps (g @ [resourceName lu out p])
        (w\<lparr>files := fs', stdout := stdout w @
           [''Wrote '' @ deriveSchemaNameFromFilename lu p @ '' -> '' @ outputPath lu out p @ [LF]]\<rparr>)
       = (Inr g', wE)" by blast
  have k: "k \<noteq> filepath_Clean (outputPath lu out p)"
    using Cons.prems(2) by (auto simp: outputPath_clean)
  have "fmlookup (files wE) k = Some (Regular c) \<longleftrightarrow> fmlookup fs' k = Some (Regular c)"
    using Cons.IH[OF rest] Cons.prems(2) by simp
  then show ?case using writeFile_frame[OF wr k, of c] by simp
qed

lemma generateEach_split:
  "generateEach lu out (pre @ rest) g w = (Inr g', wE) \<Longrightarrow>
   \<exists>gM wM. generateEach lu out pre g w = (Inr gM, wM) \<and>
           generateEach lu out rest gM wM = (Inr g', wE)"
proof (induction pre arbitrary: g w)
  case Nil
  then show ?case by simp
next
  case (Cons p pre)
  from generateEach_step[OF Cons.prems[simplified append_Cons]] obtain proto fs' where
    rd: "os_ReadFile (files w) p = Inr proto"
    and wr: "writeFile (outputPath lu out p)
        (schemaManifest (deriveSchemaNameFromFilename lu p) (normalizeNewlines proto)) (files w)
       = (None, fs')"
    and rest: "generateEach lu out (pre @ rest) (g @ [resourceName lu out p])
        (w\<lparr>files := fs', stdout := stdout w @
           [''Wrote '' @ deriveSchemaNameFromFilename lu p @ '' -> '' @ outputPath lu out p @ [LF]]\<rparr>)
       = (Inr g', wE)" by blast
  from Cons.IH[OF rest] obtain gM wM where
    a: "generateEach lu out pre (g @ [resourceName lu out p])
        (w\<lparr>files := fs', stdout := stdout w @
           [''Wrote '' @ deriveSchemaNameFromFilename lu p @ '' -> '' @ outputPath lu out p @ [LF]]\<rparr>)
       = (Inr gM, wM)"
    and b: "generateEach lu out rest gM wM = (Inr g', wE)" by blast
  have "generateEach lu out (p # pre) g w = (Inr gM, wM)"
    using rd wr a by (simp add: Let_def outputPath_def resourceName_def del: filepath_Join.simps)
  then show ?case using b by blast
qed

lemma os_ReadDir_Inr: "os_ReadDir fs d = Inr es \<Longrightarrow> os_Stat fs d = Inr Directory"
  by (auto simp: os_ReadDir_def split: sum.splits node.splits)

lemma cleanup_cases:
  assumes "removeGeneratedSchemas out fs = (None, fs')"
  shows "fs' = fs \<or> (os_Stat fs out = Inr Directory \<and> fs' = fmfilter (\<lambda>k. \<not> staleManifest out fs k) fs)"
proof (cases "os_ReadDir fs out")
  case (Inl e)
  then show ?thesis using assms by (simp add: removeGeneratedSchemas_def split: if_splits)
next
  case (Inr es)
  then have "os_Stat fs out = Inr Directory" by (rule os_ReadDir_Inr)
  then show ?thesis using assms removeGeneratedSchemas_dir[of fs out] by simp
qed

lemma cleanup_subset:
  "removeGeneratedSchemas out fs = (None, fs') \<Longrightarrow> fmlookup fs' k = Some x \<Longrightarrow> fmlookup fs k = Some x"
  by (drule cleanup_cases) (auto split: if_splits)

lemma count_list_sort: "count_list (sort xs) x = count_list xs x"
  by (metis count_mset mset_sort)

lemma count_list_map: "count_list (map f xs) y = length (filter (\<lambda>x. f x = y) xs)"
  by (induction xs) auto

lemma index_ne_manifest:
  assumes "CHR ''/'' \<notin> set n"
  shows "indexPath out \<noteq> filepath_Join [out, n @ ''.schema.yaml'']"
proof
  assume e: "indexPath out = filepath_Join [out, n @ ''.schema.yaml'']"
  have "filepath_Base (indexPath out) = ''kustomization.yaml''"
    unfolding indexPath_def by (rule Base_Join[OF plain_index])
  moreover have "filepath_Base (filepath_Join [out, n @ ''.schema.yaml'']) = n @ ''.schema.yaml''"
    by (rule Base_Join[OF plain_manifest_name[OF assms]])
  ultimately have "n @ ''.schema.yaml'' = ''kustomization.yaml''" using e by simp
  then have "drop (length n) (n @ ''.schema.yaml'') = drop (length n) ''kustomization.yaml''" by simp
  then have d: "''.schema.yaml'' = drop (length n) ''kustomization.yaml''" by simp
  then have "length ''.schema.yaml'' = length ''kustomization.yaml'' - length n" by (metis length_drop)
  then have "length n = 6" by simp
  with d show False by simp
qed

declare filepath_Join.simps [simp del]

text \<open>
  Claim C10: let two inputs of one run derive the same name, without a slash, the later
  one being the last input that writes the manifest path of that name and not being
  itself a manifest path written before it is read. If the run succeeds, both inputs
  have the same manifest path, so there is one manifest file for the name; its content
  is the manifest of the text that the later input held before the run (the text that
  reading the input before the run returns, unless its path cannot be resolved then: it
  may lead through a directory that the run makes); and the index, which lists the
  recorded base names sorted, contains the entry of that name at least twice: it is not
  deduplicated.
\<close>

theorem same_name_last_writer_wins:
  assumes ok: "generateAll lu (pre @ q # post) out w = (None, w')"
    and p: "p \<in> set pre"
    and np: "deriveSchemaNameFromFilename lu p = n"
    and nq: "deriveSchemaNameFromFilename lu q = n"
    and plain: "CHR ''/'' \<notin> set n"
    and later: "\<forall>x\<in>set post. outputPath lu out x \<noteq> outputPath lu out q"
    and notout: "\<forall>x\<in>set pre. filepath_Clean q \<noteq> outputPath lu out x"
  shows "outputPath lu out p = outputPath lu out q \<and>
         (\<exists>cq. fmlookup (files w) (filepath_Clean q) = Some (Regular cq) \<and>
            (os_ReadFile (files w) q = Inr cq \<or> (\<exists>e. os_Stat (files w) q = Inl e)) \<and>
            fmlookup (files w') (outputPath lu out q) =
              Some (Regular (strings_ReplaceAll
                 (schemaManifest n (normalizeNewlines cq)) [CR, LF] [LF]))) \<and>
         fmlookup (files w') (indexPath out) =
           Some (Regular (strings_ReplaceAll
             (kustomizationText (sort (map (resourceName lu out) (pre @ q # post)))) [CR, LF] [LF])) \<and>
         2 \<le> count_list (sort (map (resourceName lu out) (pre @ q # post))) (n @ ''.schema.yaml'')"
proof -
  let ?fl = "pre @ q # post"
  let ?O = "outputPath lu out q"
  have same: "outputPath lu out p = ?O" by (simp add: outputPath_def np nq)
  from generateAll_success[OF ok] obtain fs0 wE where
    cl: "removeGeneratedSchemas out (files w) = (None, fs0)"
    and ge: "generateEach lu out ?fl [] (w\<lparr>files := fs0\<rparr>) = (Inr (map (resourceName lu out) ?fl), wE)"
    and wk: "writeKustomization out (sort (map (resourceName lu out) ?fl)) (files wE) = (None, files w')"
    by blast
  from generateEach_split[OF ge] obtain gM wM where
    g1: "generateEach lu out pre [] (w\<lparr>files := fs0\<rparr>) = (Inr gM, wM)"
    and g2: "generateEach lu out (q # post) gM wM = (Inr (map (resourceName lu out) ?fl), wE)"
    by blast
  from generateEach_step[OF g2] obtain cq fs' where
    rd: "os_ReadFile (files wM) q = Inr cq"
    and wr: "writeFile ?O (schemaManifest (deriveSchemaNameFromFilename lu q) (normalizeNewlines cq)) (files wM)
       = (None, fs')"
    and g3: "generateEach lu out post (gM @ [resourceName lu out q])
        (wM\<lparr>files := fs', stdout := stdout wM @
           [''Wrote '' @ deriveSchemaNameFromFilename lu q @ '' -> '' @ ?O @ [LF]]\<rparr>)
       = (Inr (map (resourceName lu out) ?fl), wE)" by blast
  let ?m = "strings_ReplaceAll (schemaManifest n (normalizeNewlines cq)) [CR, LF] [LF]"
  \<comment> \<open>the text of the later input is the one it had before the run\<close>
  have qM: "q \<noteq> []" "fmlookup (files wM) (filepath_Clean q) = Some (Regular cq)"
    using os_ReadFile_lookup[OF rd] by simp_all
  have "\<forall>x\<in>set pre. outputPath lu out x \<noteq> filepath_Clean q" using notout by metis
  from generateEach_frame[OF g1 this, of cq] qM(2)
  have "fmlookup fs0 (filepath_Clean q) = Some (Regular cq)" by simp
  then have lk0: "fmlookup (files w) (filepath_Clean q) = Some (Regular cq)"
    using cleanup_subset[OF cl] by blast
  have rd0: "os_ReadFile (files w) q = Inr cq \<or> (\<exists>e. os_Stat (files w) q = Inl e)"
  proof (cases "os_Stat (files w) q")
    case (Inl e)
    then show ?thesis by blast
  next
    case (Inr x)
    then have "x = Regular cq" using os_Stat_lookup[OF Inr] lk0 by simp
    then show ?thesis using Inr by (simp add: os_ReadFile_def)
  qed
  \<comment> \<open>what the later input writes stays\<close>
  have a: "fmlookup fs' ?O = Some (Regular ?m)"
    using writeFile_lookup[OF wr] by (simp add: outputPath_clean nq)
  have "\<forall>x\<in>set post. outputPath lu out x \<noteq> ?O" using later by simp
  from generateEach_frame[OF g3 this, of ?m] a
  have b: "fmlookup (files wE) ?O = Some (Regular ?m)" by simp
  have "?O \<noteq> filepath_Clean (indexPath out)"
    using index_ne_manifest[OF plain, of out] by (simp add: indexPath_clean outputPath_def nq)
  from writeFile_frame[OF wk[unfolded writeKustomization_def indexPath_def[symmetric]] this, of ?m] b
  have c: "fmlookup (files w') ?O = Some (Regular ?m)" by simp
  \<comment> \<open>the index lists the name once per input\<close>
  have rp: "resourceName lu out p = n @ ''.schema.yaml''"
    using resourceName_plain[of lu p out] plain np by simp
  have rq: "resourceName lu out q = n @ ''.schema.yaml''"
    using resourceName_plain[of lu q out] plain nq by simp
  let ?e = "n @ ''.schema.yaml''"
  have "p \<in> set (filter (\<lambda>x. resourceName lu out x = ?e) pre)" using p rp by simp
  then have "filter (\<lambda>x. resourceName lu out x = ?e) pre \<noteq> []"
    by (metis empty_iff empty_set)
  then have "1 \<le> length (filter (\<lambda>x. resourceName lu out x = ?e) pre)"
    by (simp add: Suc_le_eq)
  moreover have "length (filter (\<lambda>x. resourceName lu out x = ?e) ?fl)
      = length (filter (\<lambda>x. resourceName lu out x = ?e) pre) + 1
        + length (filter (\<lambda>x. resourceName lu out x = ?e) post)"
    using rq by simp
  ultimately have "2 \<le> length (filter (\<lambda>x. resourceName lu out x = ?e) ?fl)"
    by linarith
  then have cnt: "2 \<le> count_list (sort (map (resourceName lu out) ?fl)) ?e"
    unfolding count_list_sort count_list_map .
  show ?thesis using same lk0 rd0 c generateAll_index[OF ok] cnt by blast
qed

theorem same_name_last_writer_wins_witness:
  "clashRun = (None, snd clashRun) \<and>
   deriveSchemaNameFromFilename (\<lambda>s. s) ''in/x.y.pubsub.proto'' = ''x-y'' \<and>
   deriveSchemaNameFromFilename (\<lambda>s. s) ''in/x_y.pubsub.proto'' = ''x-y'' \<and>
   outputPath (\<lambda>s. s) ''out'' ''in/x_y.pubsub.proto'' = ''out/x-y.schema.yaml'' \<and>
   os_ReadFile clashFiles ''in/x_y.pubsub.proto'' = Inr (''message Second {}'' @ [LF]) \<and>
   fmlookup (files (snd clashRun)) ''out/x-y.schema.yaml'' =
     Some (Regular (strings_ReplaceAll
        (schemaManifest ''x-y'' (normalizeNewlines (''message Second {}'' @ [LF]))) [CR, LF] [LF])) \<and>
   fmlookup (files (snd clashRun)) ''out/kustomization.yaml'' =
     Some (Regular (
       ''apiVersion: kustomize.config.k8s.io/v1beta1'' @ [LF] @
       ''kind: Kustomization'' @ [LF, LF] @
       ''resources:'' @ [LF] @
       ''  - x-y.schema.yaml'' @ [LF] @
       ''  - x-y.schema.yaml'' @ [LF])) \<and>
   entryNames (files (snd clashRun)) ''out'' = [''kustomization.yaml'', ''x-y.schema.yaml'']"
proof -
  let ?p = "''in/x.y.pubsub.proto''" and ?q = "''in/x_y.pubsub.proto''"
  have f: "fst clashRun = None" by code_simp
  then have r: "clashRun = (None, snd clashRun)" by (metis prod.collapse)
  have np: "deriveSchemaNameFromFilename (\<lambda>s. s) ?p = ''x-y''" by code_simp
  have nq: "deriveSchemaNameFromFilename (\<lambda>s. s) ?q = ''x-y''" by code_simp
  have op: "outputPath (\<lambda>s. s) ''out'' ?q = ''out/x-y.schema.yaml''" by code_simp
  have ne: "filepath_Clean ?q \<noteq> outputPath (\<lambda>s. s) ''out'' ?p" by code_simp
  have rdq: "os_ReadFile clashFiles ?q = Inr (''message Second {}'' @ [LF])" by code_simp
  have lkq: "fmlookup clashFiles (filepath_Clean ?q) = Some (Regular (''message Second {}'' @ [LF]))"
    by code_simp
  have idx: "fmlookup (files (snd clashRun)) ''out/kustomization.yaml'' =
     Some (Regular (
       ''apiVersion: kustomize.config.k8s.io/v1beta1'' @ [LF] @
       ''kind: Kustomization'' @ [LF, LF] @
       ''resources:'' @ [LF] @
       ''  - x-y.schema.yaml'' @ [LF] @
       ''  - x-y.schema.yaml'' @ [LF]))" by code_simp
  have en: "entryNames (files (snd clashRun)) ''out'' = [''kustomization.yaml'', ''x-y.schema.yaml'']"
    by code_simp
  have h1: "?p \<in> set [?p]" by (rule list.set_intros(1))
  have h2: "CHR ''/'' \<notin> set ''x-y''" by simp
  have h3: "\<forall>x\<in>set []. outputPath (\<lambda>s. s) ''out'' x \<noteq> outputPath (\<lambda>s. s) ''out'' ?q"
    by simp
  have h4: "\<forall>x\<in>set [?p]. filepath_Clean ?q \<noteq> outputPath (\<lambda>s. s) ''out'' x"
    using ne by (metis empty_iff empty_set set_ConsD)
  note T = same_name_last_writer_wins[OF r[unfolded clashRun_def] h1 np nq h2 h3 h4, folded clashRun_def]
  from T[THEN conjunct2, THEN conjunct1] obtain c where
    c1: "fmlookup (files \<lparr>files = clashFiles, stdout = []\<rparr>) (filepath_Clean ?q) = Some (Regular c)"
    and c2: "fmlookup (files (snd clashRun)) (outputPath (\<lambda>s. s) ''out'' ?q) =
        Some (Regular (strings_ReplaceAll (schemaManifest ''x-y'' (normalizeNewlines c)) [CR, LF] [LF]))"
    by (elim exE conjE)
  have "files \<lparr>files = clashFiles, stdout = []\<rparr> = clashFiles" by (rule world.select_convs(1))
  with c1 lkq have "Some (Regular c) = Some (Regular (''message Second {}'' @ [LF]))" by (metis)
  then have c: "c = ''message Second {}'' @ [LF]" by simp
  have m: "fmlookup (files (snd clashRun)) ''out/x-y.schema.yaml'' =
     Some (Regular (strings_ReplaceAll
        (schemaManifest ''x-y'' (normalizeNewlines (''message Second {}'' @ [LF]))) [CR, LF] [LF]))"
    using c2 unfolding op c .
  show ?thesis
    by (intro conjI) (rule r np nq op rdq m idx en)+
qed

end
